theory Spec2Isabelle
  imports Main "HOL-Library.FSet" "HOL-Library.AList" "HOL-Library.Product_Lexorder"
begin

section \<open>smokesignal: values, exceptions and the registry state\<close>

text \<open>
  The module keeps one process-wide table,
  \<^verbatim>\<open>receivers = defaultdict(set)\<close>, from signals to sets of callbacks, and
  stores a few attributes on the callback objects themselves. The model passes that
  state explicitly. Exceptions are values: every function that can raise returns a
  \<open>result\<close> together with the state reached when it returned or raised.
\<close>

type_synonym signal = string

text \<open>
  Function objects, compared by identity. \<open>Func n\<close> is a function (or any other
  callable object that accepts attributes) supplied by the caller; \<open>Wrapper k m\<close> is the
  closure \<^verbatim>\<open>_callback\<close> that the \<open>k\<close>-th wrapping call of \<^verbatim>\<open>on\<close> created around the bound
  method \<open>m\<close>.
\<close>

datatype func = Func nat | Wrapper nat nat

text \<open>
  The values a caller can pass where a callback is expected: \<^verbatim>\<open>None\<close>, an integer
  (\<^verbatim>\<open>bool\<close> included), a function object, a bound method
  (\<^verbatim>\<open>types.MethodType\<close>), or any other value that is not callable.
\<close>

datatype pyobj = NoneObj | IntObj int | FuncObj func | MethodObj nat | OtherObj nat

fun callable :: "pyobj \<Rightarrow> bool" where
  "callable (FuncObj c) = True"
| "callable (MethodObj m) = True"
| "callable x = False"

type_synonym args = "pyobj list \<times> (string \<times> pyobj) list"

definition no_args :: args where
  "no_args = ([], [])"

datatype exn = AssertionError | AttributeError | KeyError | UserError nat

datatype 'a result = Return 'a | Raise exn

text \<open>The attribute \<^verbatim>\<open>_max_calls\<close> of a function object: missing, \<^verbatim>\<open>None\<close>, or an integer.\<close>

datatype limit = Absent | Unlimited | Remaining int

fun limit_of :: "int option \<Rightarrow> limit" where
  "limit_of None = Unlimited"
| "limit_of (Some n) = Remaining n"

text \<open>
  The four helper attributes \<^verbatim>\<open>_on\<close> attaches unless the object already has an attribute
  of that name.
\<close>

datatype helper = RespondsTo | Signals | Disconnect | DisconnectFrom

datatype attrval = BoundHelper | UserValue

text \<open>
  \<open>receivers\<close> is the dictionary in insertion order. \<open>wrappers_made\<close> counts the closures
  created so far, which gives each new one an identity of its own. \<open>trace\<close> is a ghost
  field: the calls \<^verbatim>\<open>callback(*args, **kwargs)\<close> made by \<^verbatim>\<open>_call\<close>, oldest first.
\<close>

record state =
  receivers :: "(signal \<times> func fset) list"
  max_calls :: "func \<Rightarrow> limit"
  helper_attr :: "func \<Rightarrow> helper \<Rightarrow> attrval option"
  wrappers_made :: nat
  trace :: "(func \<times> args) list"

definition init_state :: state where
  "init_state = \<lparr>receivers = [], max_calls = (\<lambda>c. Absent), helper_attr = (\<lambda>c h. None),
     wrappers_made = 0, trace = []\<rparr>"

text \<open>
  What is outside the module: the behaviour of the caller's functions and bound methods
  (total state transformers that return or raise), and the order in which Python
  iterates over a set: \<open>iter e A\<close> is the order in which a copy of the set \<open>A\<close> is
  traversed. Nothing is known about that order except that it lists every member once
  (\<open>iter_ok\<close>).
\<close>

record env =
  body :: "nat \<Rightarrow> args \<Rightarrow> state \<Rightarrow> unit result \<times> state"
  method_body :: "nat \<Rightarrow> args \<Rightarrow> state \<Rightarrow> unit result \<times> state"
  iter :: "func fset \<Rightarrow> func list"

definition iter_ok :: "env \<Rightarrow> bool" where
  "iter_ok e = (\<forall>A. fset_of_list (iter e A) = A \<and> distinct (iter e A))"

section \<open>The dictionary of sets\<close>

text \<open>\<^verbatim>\<open>receivers[k]\<close>: a missing key is inserted with an empty set.\<close>

definition getitem :: "signal \<Rightarrow> state \<Rightarrow> func fset \<times> state" where
  "getitem k s =
     (case map_of (receivers s) k of
        Some A \<Rightarrow> (A, s)
      | None \<Rightarrow> ({||}, s\<lparr>receivers := receivers s @ [(k, {||})]\<rparr>))"

text \<open>The set stored under \<open>k\<close> is mutated in place.\<close>

definition store :: "signal \<Rightarrow> func fset \<Rightarrow> state \<Rightarrow> state" where
  "store k A s = s\<lparr>receivers := AList.update k A (receivers s)\<rparr>"

definition set_add :: "signal \<Rightarrow> func \<Rightarrow> state \<Rightarrow> state" where
  "set_add k c s = (case getitem k s of (A, s1) \<Rightarrow> store k (finsert c A) s1)"

text \<open>\<^verbatim>\<open>set.remove\<close> raises \<^verbatim>\<open>KeyError\<close> when the element is missing.\<close>

definition set_remove :: "signal \<Rightarrow> func \<Rightarrow> state \<Rightarrow> unit result \<times> state" where
  "set_remove k c s =
     (case getitem k s of (A, s1) \<Rightarrow>
        if c |\<in>| A then (Return (), store k (A |-| {|c|}) s1) else (Raise KeyError, s1))"

definition set_clear :: "signal \<Rightarrow> state \<Rightarrow> state" where
  "set_clear k s = (case getitem k s of (A, s1) \<Rightarrow> store k {||} s1)"

text \<open>Reading a signal's set without the side effect of \<open>getitem\<close>, for stating properties.\<close>

definition recv :: "state \<Rightarrow> signal \<Rightarrow> func fset" where
  "recv s k = (case map_of (receivers s) k of Some A \<Rightarrow> A | None \<Rightarrow> {||})"

definition keys :: "state \<Rightarrow> signal list" where
  "keys s = map fst (receivers s)"

section \<open>Queries\<close>

text \<open>
  \<^verbatim>\<open>callback in receivers[signal]\<close>. The sets hold function objects only (\<^verbatim>\<open>_on\<close> is the
  one place that adds to them), and a function object equals nothing but itself.
\<close>

definition responds_to :: "pyobj \<Rightarrow> signal \<Rightarrow> state \<Rightarrow> bool \<times> state" where
  "responds_to callback k s =
     (case getitem k s of (A, s1) \<Rightarrow>
        ((case callback of FuncObj c \<Rightarrow> c |\<in>| A | _ \<Rightarrow> False), s1))"

fun signals_loop :: "pyobj \<Rightarrow> signal list \<Rightarrow> state \<Rightarrow> signal list \<times> state" where
  "signals_loop callback [] s = ([], s)"
| "signals_loop callback (k # ks) s =
     (case responds_to callback k s of (b, s1) \<Rightarrow>
        (case signals_loop callback ks s1 of (r, s2) \<Rightarrow> (if b then k # r else r, s2)))"

definition signals :: "pyobj \<Rightarrow> state \<Rightarrow> signal list \<times> state" where
  "signals callback s = signals_loop callback (keys s) s"

section \<open>Disconnecting\<close>

fun remove_loop :: "func \<Rightarrow> signal list \<Rightarrow> state \<Rightarrow> unit result \<times> state" where
  "remove_loop c [] s = (Return (), s)"
| "remove_loop c (k # ks) s =
     (case set_remove k c s of
        (Raise e, s1) \<Rightarrow> (Raise e, s1)
      | (Return u, s1) \<Rightarrow> remove_loop c ks s1)"

definition disconnect :: "func \<Rightarrow> state \<Rightarrow> unit result \<times> state" where
  "disconnect c s = (case signals (FuncObj c) s of (ks, s1) \<Rightarrow> remove_loop c ks s1)"

text \<open>A signal argument is a single signal or a list or tuple of them.\<close>

datatype sigs = Single signal | Several "signal list"

fun as_list :: "sigs \<Rightarrow> signal list" where
  "as_list (Single k) = [k]"
| "as_list (Several ks) = ks"

fun disconnect_from_loop :: "func \<Rightarrow> signal list \<Rightarrow> state \<Rightarrow> unit result \<times> state" where
  "disconnect_from_loop c [] s = (Return (), s)"
| "disconnect_from_loop c (k # ks) s =
     (case responds_to (FuncObj c) k s of
        (True, s1) \<Rightarrow>
          (case set_remove k c s1 of
             (Raise e, s2) \<Rightarrow> (Raise e, s2)
           | (Return u, s2) \<Rightarrow> disconnect_from_loop c ks s2)
      | (False, s1) \<Rightarrow> disconnect_from_loop c ks s1)"

definition disconnect_from :: "func \<Rightarrow> sigs \<Rightarrow> state \<Rightarrow> unit result \<times> state" where
  "disconnect_from c sg s = disconnect_from_loop c (as_list sg) s"

section \<open>Dispatch\<close>

text \<open>The call \<^verbatim>\<open>callback(*args, **kwargs)\<close>; a wrapper calls the bound method it closes over.\<close>

fun invoke :: "env \<Rightarrow> func \<Rightarrow> args \<Rightarrow> state \<Rightarrow> unit result \<times> state" where
  "invoke e (Func n) a s = body e n a (s\<lparr>trace := trace s @ [(Func n, a)]\<rparr>)"
| "invoke e (Wrapper k m) a s = method_body e m a (s\<lparr>trace := trace s @ [(Wrapper k m, a)]\<rparr>)"

text \<open>\<^verbatim>\<open>_call\<close>: a missing \<^verbatim>\<open>_max_calls\<close> is set to \<^verbatim>\<open>None\<close> first.\<close>

definition priv_call :: "env \<Rightarrow> func \<Rightarrow> args \<Rightarrow> state \<Rightarrow> unit result \<times> state" where
  "priv_call e c a s =
     (let s1 = (if max_calls s c = Absent then s\<lparr>max_calls := (max_calls s)(c := Unlimited)\<rparr> else s)
      in case max_calls s1 c of
           Remaining n \<Rightarrow>
             if n \<le> 0 then disconnect c s1
             else invoke e c a (s1\<lparr>max_calls := (max_calls s1)(c := Remaining (n - 1))\<rparr>)
         | _ \<Rightarrow> invoke e c a s1)"

fun emit_loop :: "env \<Rightarrow> func list \<Rightarrow> args \<Rightarrow> state \<Rightarrow> unit result \<times> state" where
  "emit_loop e [] a s = (Return (), s)"
| "emit_loop e (c # cs) a s =
     (case priv_call e c a s of
        (Raise x, s1) \<Rightarrow> (Raise x, s1)
      | (Return u, s1) \<Rightarrow> emit_loop e cs a s1)"

text \<open>\<^verbatim>\<open>for callback in set(receivers[signal])\<close>: the copy is taken once, then iterated.\<close>

definition emit :: "env \<Rightarrow> signal \<Rightarrow> args \<Rightarrow> state \<Rightarrow> unit result \<times> state" where
  "emit e k a s = (case getitem k s of (A, s1) \<Rightarrow> emit_loop e (iter e A) a s1)"

text \<open>
  The context manager around a block \<open>blk\<close>. An exception of the enter emission leaves
  before the \<^verbatim>\<open>try\<close>. The \<^verbatim>\<open>finally\<close> clause runs after the block either way; when it
  raises, its exception replaces the block's.
\<close>

definition emitting ::
  "env \<Rightarrow> signal \<Rightarrow> signal option \<Rightarrow> (state \<Rightarrow> unit result \<times> state) \<Rightarrow> state \<Rightarrow> unit result \<times> state"
where
  "emitting e exit enter blk s =
     (case (case enter of None \<Rightarrow> (Return (), s) | Some k \<Rightarrow> emit e k no_args s) of
        (Raise x, s1) \<Rightarrow> (Raise x, s1)
      | (Return u, s1) \<Rightarrow>
          (case blk s1 of (r2, s2) \<Rightarrow>
             (case emit e exit no_args s2 of
                (Raise x, s3) \<Rightarrow> (Raise x, s3)
              | (Return u', s3) \<Rightarrow> (r2, s3))))"

section \<open>Registration\<close>

definition attach :: "func \<Rightarrow> helper \<Rightarrow> state \<Rightarrow> state" where
  "attach c h s =
     (if helper_attr s c h = None
      then s\<lparr>helper_attr := (helper_attr s)(c := (helper_attr s c)(h \<mapsto> BoundHelper))\<rparr>
      else s)"

text \<open>
  \<^verbatim>\<open>_on\<close>. The check for a callable comes first. The assignment of \<^verbatim>\<open>_max_calls\<close> succeeds on a
  function object; a bound method accepts no new attribute, so the assignment raises
  \<^verbatim>\<open>AttributeError\<close> before anything is registered.
\<close>

definition priv_on :: "sigs \<Rightarrow> pyobj \<Rightarrow> int option \<Rightarrow> state \<Rightarrow> func result \<times> state" where
  "priv_on on_signals callback mc s =
     (if \<not> callable callback then (Raise AssertionError, s)
      else case callback of
        FuncObj c \<Rightarrow>
          (let s1 = s\<lparr>max_calls := (max_calls s)(c := limit_of mc)\<rparr>;
               s2 = fold (\<lambda>k. set_add k c) (as_list on_signals) s1;
               s3 = attach c DisconnectFrom (attach c Disconnect (attach c Signals
                      (attach c RespondsTo s2)))
           in (Return c, s3))
      | _ \<Rightarrow> (Raise AttributeError, s))"

text \<open>
  \<^verbatim>\<open>on\<close> returns either the registered callback or, in its decorator form,
  \<^verbatim>\<open>partial(_on, signals, max_calls=max_calls)\<close>.
\<close>

datatype on_result = Registered func | Registrar sigs "int option"

definition on :: "sigs \<Rightarrow> pyobj \<Rightarrow> int option \<Rightarrow> state \<Rightarrow> on_result result \<times> state" where
  "on sg callback mc s =
     (case callback of
        IntObj i \<Rightarrow> (Return (Registrar sg (Some i)), s)
      | NoneObj \<Rightarrow> (Return (Registrar sg mc), s)
      | MethodObj m \<Rightarrow>
          (case priv_on sg (FuncObj (Wrapper (wrappers_made s) m)) mc
                  (s\<lparr>wrappers_made := Suc (wrappers_made s)\<rparr>) of
             (Return c, s1) \<Rightarrow> (Return (Registered c), s1)
           | (Raise x, s1) \<Rightarrow> (Raise x, s1))
      | _ \<Rightarrow>
          (case priv_on sg callback mc s of
             (Return c, s1) \<Rightarrow> (Return (Registered c), s1)
           | (Raise x, s1) \<Rightarrow> (Raise x, s1)))"

text \<open>Calling the partial \<open>Registrar sg mc\<close> with a callback is \<^verbatim>\<open>_on(sg, callback, max_calls=mc)\<close>.\<close>

definition call_registrar :: "sigs \<Rightarrow> int option \<Rightarrow> pyobj \<Rightarrow> state \<Rightarrow> func result \<times> state" where
  "call_registrar sg mc callback s = priv_on sg callback mc s"

definition once :: "sigs \<Rightarrow> pyobj \<Rightarrow> state \<Rightarrow> on_result result \<times> state" where
  "once sg callback s = on sg callback (Some 1) s"

section \<open>Clearing\<close>

text \<open>\<^verbatim>\<open>clear(*signals)\<close>: with no argument, the keys of the dictionary.\<close>

definition clear :: "signal list \<Rightarrow> state \<Rightarrow> state" where
  "clear sgs s = fold set_clear (if sgs = [] then keys s else sgs) s"

definition clear_all :: "state \<Rightarrow> state" where
  "clear_all s = fold set_clear (keys s) s"

section \<open>Observations used in the statements\<close>

text \<open>How often \<open>c\<close> has been called so far.\<close>

definition invocations :: "func \<Rightarrow> state \<Rightarrow> nat" where
  "invocations c s = length (filter (\<lambda>p. fst p = c) (trace s))"

text \<open>A dictionary has each key once.\<close>

definition keys_distinct :: "state \<Rightarrow> bool" where
  "keys_distinct s = distinct (keys s)"

text \<open>
  A callback that returns and leaves the module's state alone (for instance
  \<^verbatim>\<open>def cb(*args, **kwargs): pass\<close>).
\<close>

definition inert :: "env \<Rightarrow> func \<Rightarrow> bool" where
  "inert e c = (\<forall>a s. invoke e c a s = (Return (), s\<lparr>trace := trace s @ [(c, a)]\<rparr>))"

text \<open>A counter that makes \<^verbatim>\<open>_call\<close> disconnect instead of calling.\<close>

fun exhausted :: "limit \<Rightarrow> bool" where
  "exhausted (Remaining n) = (n \<le> 0)"
| "exhausted l = False"

text \<open>The counter \<^verbatim>\<open>_call\<close> leaves behind when it does call.\<close>

fun after_call :: "limit \<Rightarrow> limit" where
  "after_call Absent = Unlimited"
| "after_call Unlimited = Unlimited"
| "after_call (Remaining n) = Remaining (n - 1)"

text \<open>No closure that a later call of \<^verbatim>\<open>on\<close> will create is in the registry yet.\<close>

fun older_than :: "nat \<Rightarrow> func \<Rightarrow> bool" where
  "older_than w (Func n) = True"
| "older_than w (Wrapper k m) = (k < w)"

definition wrappers_fresh :: "state \<Rightarrow> bool" where
  "wrappers_fresh s = (\<forall>k c. c |\<in>| recv s k \<longrightarrow> older_than (wrappers_made s) c)"

section \<open>A concrete environment\<close>

text \<open>
  One admissible iteration order: function objects sorted by a key. It is used to run the
  model on concrete inputs.
\<close>

fun func_key :: "func \<Rightarrow> nat \<times> nat \<times> nat" where
  "func_key (Func n) = (0, n, 0)"
| "func_key (Wrapper k m) = (1, k, m)"

instantiation func :: linorder
begin

definition less_eq_func :: "func \<Rightarrow> func \<Rightarrow> bool" where
  "less_eq_func x y = (func_key x \<le> func_key y)"

definition less_func :: "func \<Rightarrow> func \<Rightarrow> bool" where
  "less_func x y = (func_key x < func_key y)"

instance
proof
  fix x y z :: func
  show "(x < y) = (x \<le> y \<and> \<not> y \<le> x)"
    by (auto simp: less_eq_func_def less_func_def)
  show "x \<le> x"
    by (simp add: less_eq_func_def)
  show "x \<le> y \<Longrightarrow> y \<le> z \<Longrightarrow> x \<le> z"
    by (auto simp: less_eq_func_def)
  show "x \<le> y \<Longrightarrow> y \<le> x \<Longrightarrow> x = y"
    by (cases x; cases y) (auto simp: less_eq_func_def)
  show "x \<le> y \<or> y \<le> x"
    by (auto simp: less_eq_func_def)
qed

end

text \<open>Callbacks that do nothing, and one that raises.\<close>

definition quiet :: "nat \<Rightarrow> args \<Rightarrow> state \<Rightarrow> unit result \<times> state" where
  "quiet n a s = (Return (), s)"

definition env0 :: env where
  "env0 = \<lparr>body = quiet, method_body = quiet, iter = sorted_list_of_fset\<rparr>"

text \<open>In \<open>env1\<close> the function \<open>Func 1\<close> raises \<open>UserError 2\<close>; every other callback is quiet.\<close>

definition failing :: "nat \<Rightarrow> args \<Rightarrow> state \<Rightarrow> unit result \<times> state" where
  "failing n a s = (if n = 1 then (Raise (UserError 2), s) else (Return (), s))"

definition env1 :: env where
  "env1 = \<lparr>body = failing, method_body = quiet, iter = sorted_list_of_fset\<rparr>"

text \<open>A registry with one callback on each of two signals.\<close>

definition two_signals :: state where
  "two_signals = init_state\<lparr>receivers := [(''A'', {|Func 0|}), (''B'', {|Func 1|})]\<rparr>"

text \<open>Three callbacks on one signal.\<close>

definition three_on_s :: state where
  "three_on_s = init_state\<lparr>receivers := [(''s'', {|Func 0, Func 1, Func 2|})]\<rparr>"

text \<open>A registry for a scope with an enter and an exit signal, and a block that fails.\<close>

definition scope_state :: state where
  "scope_state = init_state\<lparr>receivers := [(''enter'', {|Func 0|}), (''exit'', {|Func 1|})]\<rparr>"

definition failing_block :: "state \<Rightarrow> unit result \<times> state" where
  "failing_block s = (Raise (UserError 7), s\<lparr>trace := trace s @ [(Func 9, no_args)]\<rparr>)"

text \<open>
  A callback that may add and remove callbacks, itself included, while it runs. Started
  with a well-formed dictionary it returns, leaves the dictionary well-formed, calls no
  callback itself, and does not change the counter of another member of the set \<open>A\<close>
  (the snapshot being iterated); everything else is free, in particular the sets of all
  signals, its own counter and the counters of callbacks outside \<open>A\<close>.
\<close>

definition registry_only :: "env \<Rightarrow> func fset \<Rightarrow> func \<Rightarrow> bool" where
  "registry_only e A c =
     (\<forall>a s. keys_distinct s \<longrightarrow>
        fst (invoke e c a s) = Return () \<and>
        keys_distinct (snd (invoke e c a s)) \<and>
        trace (snd (invoke e c a s)) = trace s @ [(c, a)] \<and>
        (\<forall>d. d |\<in>| A \<and> d \<noteq> c \<longrightarrow> max_calls (snd (invoke e c a s)) d = max_calls s d))"

text \<open>
  In \<open>env2\<close> the function \<open>Func 0\<close> disconnects itself and then registers \<open>Func 5\<close> for the
  signal \<open>''s''\<close>; every other callback is quiet.
\<close>

definition meddling :: "nat \<Rightarrow> args \<Rightarrow> state \<Rightarrow> unit result \<times> state" where
  "meddling n a s =
     (if n = 0 then
        (case disconnect (Func 0) s of
           (Raise x, s1) \<Rightarrow> (Raise x, s1)
         | (Return u, s1) \<Rightarrow>
             (case on (Single ''s'') (FuncObj (Func 5)) None s1 of
                (Raise x, s2) \<Rightarrow> (Raise x, s2)
              | (Return c, s2) \<Rightarrow> (Return (), s2)))
      else (Return (), s))"

definition env2 :: env where
  "env2 = \<lparr>body = meddling, method_body = quiet, iter = sorted_list_of_fset\<rparr>"

definition two_on_s :: state where
  "two_on_s = init_state\<lparr>receivers := [(''s'', {|Func 0, Func 1|})]\<rparr>"

text \<open>
  The state in which \<^verbatim>\<open>_call\<close> calls a callback whose counter is not exhausted: a missing
  counter has been set to \<^verbatim>\<open>None\<close>, an integer counter has been decremented.
\<close>

definition before_call :: "func \<Rightarrow> state \<Rightarrow> state" where
  "before_call c s = s\<lparr>max_calls := (max_calls s)(c := after_call (max_calls s c))\<rparr>"

text \<open>
  In \<open>env3\<close> the function \<open>Func 0\<close> registers \<open>Func 1\<close> for the signal \<open>''s''\<close> with
  \<^verbatim>\<open>max_calls=0\<close>; every other callback is quiet.
\<close>

definition relimiting :: "nat \<Rightarrow> args \<Rightarrow> state \<Rightarrow> unit result \<times> state" where
  "relimiting n a s =
     (if n = 0 then
        (case on (Single ''s'') (FuncObj (Func 1)) (Some 0) s of
           (Raise x, s1) \<Rightarrow> (Raise x, s1)
         | (Return c, s1) \<Rightarrow> (Return (), s1))
      else (Return (), s))"

definition env3 :: env where
  "env3 = \<lparr>body = relimiting, method_body = quiet, iter = sorted_list_of_fset\<rparr>"

section \<open>Facts about the dictionary operations\<close>

lemma getitem_fst [simp]: "fst (getitem k s) = recv s k"
  by (simp add: getitem_def recv_def split: option.splits)

lemma key_iff: "k \<in> set (keys s) \<longleftrightarrow> map_of (receivers s) k \<noteq> None"
  by (simp add: keys_def map_of_eq_None_iff)

lemma getitem_recv [simp]: "recv (snd (getitem k s)) k' = recv s k'"
  by (auto simp: getitem_def recv_def split: option.splits if_splits)

lemma getitem_keys [simp]:
  "keys (snd (getitem k s)) = (if k \<in> set (keys s) then keys s else keys s @ [k])"
  by (auto simp: getitem_def key_iff split: option.splits) (simp add: keys_def)

lemma getitem_obs [simp]:
  "max_calls (snd (getitem k s)) = max_calls s"
  "helper_attr (snd (getitem k s)) = helper_attr s"
  "wrappers_made (snd (getitem k s)) = wrappers_made s"
  "trace (snd (getitem k s)) = trace s"
  by (auto simp: getitem_def split: option.splits)

lemma getitem_present: "k \<in> set (keys s) \<Longrightarrow> getitem k s = (recv s k, s)"
  by (auto simp: getitem_def recv_def key_iff split: option.splits)

lemma store_obs [simp]:
  "recv (store k A s) k' = (if k' = k then A else recv s k')"
  "keys (store k A s) = (if k \<in> set (keys s) then keys s else keys s @ [k])"
  "max_calls (store k A s) = max_calls s"
  "helper_attr (store k A s) = helper_attr s"
  "wrappers_made (store k A s) = wrappers_made s"
  "trace (store k A s) = trace s"
  by (auto simp: store_def recv_def keys_def update_conv' update_keys)

lemma set_add_obs [simp]:
  "recv (set_add k c s) k' = (if k' = k then finsert c (recv s k) else recv s k')"
  "keys (set_add k c s) = (if k \<in> set (keys s) then keys s else keys s @ [k])"
  "max_calls (set_add k c s) = max_calls s"
  "helper_attr (set_add k c s) = helper_attr s"
  "wrappers_made (set_add k c s) = wrappers_made s"
  "trace (set_add k c s) = trace s"
  by (auto simp: set_add_def split_beta)

lemma set_clear_obs [simp]:
  "recv (set_clear k s) k' = (if k' = k then {||} else recv s k')"
  "keys (set_clear k s) = (if k \<in> set (keys s) then keys s else keys s @ [k])"
  "max_calls (set_clear k s) = max_calls s"
  "helper_attr (set_clear k s) = helper_attr s"
  "wrappers_made (set_clear k s) = wrappers_made s"
  "trace (set_clear k s) = trace s"
  by (auto simp: set_clear_def split_beta)

lemma set_remove_fst: "fst (set_remove k c s) = (if c |\<in>| recv s k then Return () else Raise KeyError)"
  by (simp add: set_remove_def split_beta)

lemma set_remove_obs [simp]:
  "recv (snd (set_remove k c s)) k' = (if k' = k then recv s k |-| {|c|} else recv s k')"
  "max_calls (snd (set_remove k c s)) = max_calls s"
  "helper_attr (snd (set_remove k c s)) = helper_attr s"
  "wrappers_made (snd (set_remove k c s)) = wrappers_made s"
  "trace (snd (set_remove k c s)) = trace s"
  by (auto simp: set_remove_def split_beta)

lemma set_remove_keys [simp]:
  "keys (snd (set_remove k c s)) = (if k \<in> set (keys s) then keys s else keys s @ [k])"
  by (auto simp: set_remove_def split_beta)

lemma recv_nonempty_key: "c |\<in>| recv s k \<Longrightarrow> k \<in> set (keys s)"
  by (auto simp: recv_def key_iff split: option.splits)

section \<open>Facts about the queries and about disconnecting\<close>

lemma responds_to_fst [simp]:
  "fst (responds_to (FuncObj c) k s) = (c |\<in>| recv s k)"
  "fst (responds_to (MethodObj m) k s) = False"
  by (simp_all add: responds_to_def split_beta)

lemma responds_to_present: "k \<in> set (keys s) \<Longrightarrow> snd (responds_to x k s) = s"
  by (simp add: responds_to_def getitem_present)

lemma signals_loop_eq:
  "set ks \<subseteq> set (keys s) \<Longrightarrow>
   signals_loop x ks s = (filter (\<lambda>k. fst (responds_to x k s)) ks, s)"
proof (induction ks)
  case Nil
  then show ?case by simp
next
  case (Cons k ks)
  then have "snd (responds_to x k s) = s"
    using responds_to_present [of k s x] by simp
  then obtain b where "responds_to x k s = (b, s)"
    by (cases "responds_to x k s") simp
  with Cons show ?case by simp
qed

lemma signals_eq: "signals (FuncObj c) s = (filter (\<lambda>k. c |\<in>| recv s k) (keys s), s)"
  by (simp add: signals_def signals_loop_eq)

lemma remove_loop_ok:
  "distinct ks \<Longrightarrow> \<forall>k\<in>set ks. c |\<in>| recv s k \<Longrightarrow>
   fst (remove_loop c ks s) = Return () \<and>
   keys (snd (remove_loop c ks s)) = keys s \<and>
   (\<forall>k'. recv (snd (remove_loop c ks s)) k' = (if k' \<in> set ks then recv s k' |-| {|c|} else recv s k')) \<and>
   max_calls (snd (remove_loop c ks s)) = max_calls s \<and>
   helper_attr (snd (remove_loop c ks s)) = helper_attr s \<and>
   wrappers_made (snd (remove_loop c ks s)) = wrappers_made s \<and>
   trace (snd (remove_loop c ks s)) = trace s"
proof (induction ks arbitrary: s)
  case Nil
  then show ?case by simp
next
  case (Cons k ks)
  obtain r s1 where step: "set_remove k c s = (r, s1)" by (cases "set_remove k c s")
  have mem: "c |\<in>| recv s k" using Cons.prems by simp
  then have r: "r = Return ()" using step set_remove_fst [of k c s] by simp
  have s1: "s1 = snd (set_remove k c s)" using step by simp
  have key: "k \<in> set (keys s)" using mem by (rule recv_nonempty_key)
  have "distinct ks" using Cons.prems by simp
  moreover have "\<forall>k'\<in>set ks. c |\<in>| recv s1 k'" using Cons.prems by (auto simp: s1)
  ultimately have IH: "fst (remove_loop c ks s1) = Return () \<and>
   keys (snd (remove_loop c ks s1)) = keys s1 \<and>
   (\<forall>k'. recv (snd (remove_loop c ks s1)) k' = (if k' \<in> set ks then recv s1 k' |-| {|c|} else recv s1 k')) \<and>
   max_calls (snd (remove_loop c ks s1)) = max_calls s1 \<and>
   helper_attr (snd (remove_loop c ks s1)) = helper_attr s1 \<and>
   wrappers_made (snd (remove_loop c ks s1)) = wrappers_made s1 \<and>
   trace (snd (remove_loop c ks s1)) = trace s1"
    by (rule Cons.IH)
  have unfold: "remove_loop c (k # ks) s = remove_loop c ks s1"
    using step r by simp
  show ?case
    unfolding unfold using IH key Cons.prems(1) by (auto simp: s1)
qed

lemma disconnect_ok:
  assumes "keys_distinct s"
  shows "fst (disconnect c s) = Return ()"
    and "keys (snd (disconnect c s)) = keys s"
    and "recv (snd (disconnect c s)) k = recv s k |-| {|c|}"
    and "max_calls (snd (disconnect c s)) = max_calls s"
    and "helper_attr (snd (disconnect c s)) = helper_attr s"
    and "wrappers_made (snd (disconnect c s)) = wrappers_made s"
    and "trace (snd (disconnect c s)) = trace s"
proof -
  let ?ks = "filter (\<lambda>k. c |\<in>| recv s k) (keys s)"
  have eq: "disconnect c s = remove_loop c ?ks s"
    by (simp add: disconnect_def signals_eq)
  have d: "distinct ?ks" using assms by (simp add: keys_distinct_def)
  have m: "\<forall>k\<in>set ?ks. c |\<in>| recv s k" by simp
  note R = remove_loop_ok [OF d m]
  show "fst (disconnect c s) = Return ()" using R by (simp add: eq)
  show "keys (snd (disconnect c s)) = keys s" using R by (simp add: eq)
  show "max_calls (snd (disconnect c s)) = max_calls s" using R by (simp add: eq)
  show "helper_attr (snd (disconnect c s)) = helper_attr s" using R by (simp add: eq)
  show "wrappers_made (snd (disconnect c s)) = wrappers_made s" using R by (simp add: eq)
  show "trace (snd (disconnect c s)) = trace s" using R by (simp add: eq)
  have "recv (snd (disconnect c s)) k = (if k \<in> set ?ks then recv s k |-| {|c|} else recv s k)"
    using R by (simp add: eq)
  also have "\<dots> = recv s k |-| {|c|}"
    using recv_nonempty_key [of c s k] by auto
  finally show "recv (snd (disconnect c s)) k = recv s k |-| {|c|}" .
qed

section \<open>The frame of clear\<close>

lemma fold_set_clear_recv:
  "recv (fold set_clear ks s) k = (if k \<in> set ks then {||} else recv s k)"
  by (induction ks arbitrary: s) auto

lemma fold_set_clear_keys:
  "set ks \<subseteq> set (keys s) \<Longrightarrow> keys (fold set_clear ks s) = keys s"
  by (induction ks arbitrary: s) auto

lemma fold_set_clear_rest:
  "max_calls (fold set_clear ks s) = max_calls s"
  "helper_attr (fold set_clear ks s) = helper_attr s"
  "wrappers_made (fold set_clear ks s) = wrappers_made s"
  "trace (fold set_clear ks s) = trace s"
  by (induction ks arbitrary: s) auto

lemma recv_absent: "k \<notin> set (keys s) \<Longrightarrow> recv s k = {||}"
  by (simp add: recv_def key_iff)

text \<open>
  C8. For distinct signals \<open>A\<close> and \<open>B\<close>, \<^verbatim>\<open>clear('A')\<close> empties the set of \<open>A\<close> and leaves
  the set of \<open>B\<close> as it was; \<^verbatim>\<open>clear()\<close> empties the set of every signal and keeps the
  keys of the dictionary. Neither touches the counters or the calls made so far.
\<close>

theorem clear_frame:
  "A \<noteq> B \<Longrightarrow>
     recv (clear [A] s) A = {||} \<and> recv (clear [A] s) B = recv s B \<and>
     (\<forall>k. recv (clear [] s) k = {||}) \<and> keys (clear [] s) = keys s \<and>
     (\<forall>sgs. max_calls (clear sgs s) = max_calls s \<and> trace (clear sgs s) = trace s)"
  by (auto simp: clear_def fold_set_clear_recv fold_set_clear_keys fold_set_clear_rest recv_absent)

theorem clear_frame_witness:
  "''A'' \<noteq> ''B'' \<and> recv (clear [''A''] two_signals) ''A'' = {||} \<and>
   recv (clear [''A''] two_signals) ''B'' = {|Func 1|} \<and>
   recv (clear [] two_signals) ''B'' = {||} \<and>
   keys (clear [] two_signals) = [''A'', ''B'']"
  using clear_frame [of "''A''" "''B''" two_signals]
  by (simp add: two_signals_def init_state_def recv_def keys_def)

section \<open>Facts about registration\<close>

lemma recv_field_update [simp]:
  "recv (s\<lparr>max_calls := f\<rparr>) = recv s"
  "recv (s\<lparr>helper_attr := g\<rparr>) = recv s"
  "recv (s\<lparr>wrappers_made := w\<rparr>) = recv s"
  "recv (s\<lparr>trace := t\<rparr>) = recv s"
  by (simp_all add: recv_def fun_eq_iff)

lemma keys_field_update [simp]:
  "keys (s\<lparr>max_calls := f\<rparr>) = keys s"
  "keys (s\<lparr>helper_attr := g\<rparr>) = keys s"
  "keys (s\<lparr>wrappers_made := w\<rparr>) = keys s"
  "keys (s\<lparr>trace := t\<rparr>) = keys s"
  by (simp_all add: keys_def)

lemma attach_obs [simp]:
  "receivers (attach c h s) = receivers s"
  "recv (attach c h s) = recv s"
  "keys (attach c h s) = keys s"
  "max_calls (attach c h s) = max_calls s"
  "wrappers_made (attach c h s) = wrappers_made s"
  "trace (attach c h s) = trace s"
  by (auto simp: attach_def recv_def keys_def fun_eq_iff)

lemma fold_set_add_recv:
  "recv (fold (\<lambda>k. set_add k c) ks s) k' =
     (if k' \<in> set ks then finsert c (recv s k') else recv s k')"
  by (induction ks arbitrary: s) auto

lemma fold_set_add_rest:
  "max_calls (fold (\<lambda>k. set_add k c) ks s) = max_calls s"
  "helper_attr (fold (\<lambda>k. set_add k c) ks s) = helper_attr s"
  "wrappers_made (fold (\<lambda>k. set_add k c) ks s) = wrappers_made s"
  "trace (fold (\<lambda>k. set_add k c) ks s) = trace s"
  by (induction ks arbitrary: s) auto

lemma fold_set_add_keys_distinct:
  "distinct (keys s) \<Longrightarrow> distinct (keys (fold (\<lambda>k. set_add k c) ks s))"
  by (induction ks arbitrary: s) auto

lemma fold_set_add_keys_present:
  "set ks \<subseteq> set (keys s) \<Longrightarrow> keys (fold (\<lambda>k. set_add k c) ks s) = keys s"
  by (induction ks arbitrary: s) auto

lemma priv_on_func:
  "fst (priv_on sg (FuncObj c) mc s) = Return c"
  "recv (snd (priv_on sg (FuncObj c) mc s)) k =
     (if k \<in> set (as_list sg) then finsert c (recv s k) else recv s k)"
  "max_calls (snd (priv_on sg (FuncObj c) mc s)) = (max_calls s)(c := limit_of mc)"
  "wrappers_made (snd (priv_on sg (FuncObj c) mc s)) = wrappers_made s"
  "trace (snd (priv_on sg (FuncObj c) mc s)) = trace s"
  by (simp_all add: priv_on_def Let_def fold_set_add_recv fold_set_add_rest)

lemma priv_on_keys_distinct:
  "keys_distinct s \<Longrightarrow> keys_distinct (snd (priv_on sg x mc s))"
  by (cases x) (simp_all add: priv_on_def Let_def keys_distinct_def fold_set_add_keys_distinct)

section \<open>Registration of a value that cannot be called\<close>

text \<open>
  The decorator form: with \<^verbatim>\<open>None\<close> or an integer in the callback position (the integer is
  \<^verbatim>\<open>max_calls\<close> passed positionally), \<^verbatim>\<open>on\<close> registers nothing and returns the registrar; the
  callback to be registered is the value the registrar is called with.
\<close>

lemma on_decorator_form:
  "on sg (IntObj i) mc s = (Return (Registrar sg (Some i)), s)"
  "on sg NoneObj mc s = (Return (Registrar sg mc), s)"
  by (simp_all add: on_def)

text \<open>
  C9. A value that is not callable and is passed as the callback to be registered makes
  the registration raise \<^verbatim>\<open>AssertionError\<close> at once, before anything is written: the state is
  exactly the one before the call. That holds for \<^verbatim>\<open>_on\<close> itself, for the registrar that the
  decorator form of \<^verbatim>\<open>on\<close> returned, and for the direct form of \<^verbatim>\<open>on\<close>.
\<close>

theorem reject_non_callable:
  "\<not> callable x \<Longrightarrow>
     priv_on sg x mc s = (Raise AssertionError, s) \<and>
     call_registrar sg mc x s = (Raise AssertionError, s) \<and>
     (x \<noteq> NoneObj \<and> (\<forall>i. x \<noteq> IntObj i) \<longrightarrow> on sg x mc s = (Raise AssertionError, s))"
  by (cases x) (simp_all add: priv_on_def call_registrar_def on_def)

theorem reject_non_callable_witness:
  "\<not> callable (OtherObj 0) \<and>
   priv_on (Single ''s'') (OtherObj 0) None init_state = (Raise AssertionError, init_state) \<and>
   call_registrar (Single ''s'') None (OtherObj 0) init_state = (Raise AssertionError, init_state) \<and>
   on (Single ''s'') (OtherObj 0) None init_state = (Raise AssertionError, init_state)"
  using reject_non_callable [of "OtherObj 0" "Single ''s''" None init_state] by simp

section \<open>Exceptions raised during an emission\<close>

lemma emit_loop_append:
  "emit_loop e (xs @ ys) a s =
     (case emit_loop e xs a s of
        (Raise x, s1) \<Rightarrow> (Raise x, s1)
      | (Return u, s1) \<Rightarrow> emit_loop e ys a s1)"
  by (induction xs arbitrary: s) (auto split: prod.splits result.splits)

lemma priv_call_invokes:
  "\<not> exhausted (max_calls s c) \<Longrightarrow> priv_call e c a s = invoke e c a (before_call c s)"
proof (cases "max_calls s c")
  case Absent
  then show ?thesis by (simp add: priv_call_def before_call_def)
next
  case Unlimited
  then have "(max_calls s)(c := Unlimited) = max_calls s" by (simp add: fun_upd_idem)
  with Unlimited show ?thesis by (simp add: priv_call_def before_call_def)
next
  case (Remaining n)
  assume "\<not> exhausted (max_calls s c)"
  with Remaining show ?thesis by (simp add: priv_call_def before_call_def)
qed

lemma priv_call_disconnects:
  "exhausted (max_calls s c) \<Longrightarrow> priv_call e c a s = disconnect c s"
  by (cases "max_calls s c") (simp_all add: priv_call_def)

text \<open>
  C7. Let \<open>c\<close> be a callback of the snapshot such that the callbacks iterated before it
  returned, and let the call of \<open>c\<close> made by the dispatch raise \<open>x\<close>. Then \<^verbatim>\<open>emit\<close> raises the
  same \<open>x\<close> and ends in the very state \<open>c\<close> left when it raised: nothing catches the
  exception and the callbacks that come after \<open>c\<close> in the iteration are not dispatched.
\<close>

theorem emit_fail_fast:
  assumes "iter e (recv s k) = pre @ c # post"
      and "emit_loop e pre a (snd (getitem k s)) = (Return (), s1)"
      and "\<not> exhausted (max_calls s1 c)"
      and "invoke e c a (before_call c s1) = (Raise x, s2)"
  shows "emit e k a s = (Raise x, s2) \<and> trace (snd (emit e k a s)) = trace s2"
  using assms by (simp add: emit_def split_beta emit_loop_append priv_call_invokes)


theorem emit_fail_fast_witness:
  "emit env1 ''s'' no_args three_on_s =
     (Raise (UserError 2),
      snd (invoke env1 (Func 1) no_args
             (before_call (Func 1)
                (snd (emit_loop env1 [Func 0] no_args (snd (getitem ''s'' three_on_s))))))) \<and>
   invocations (Func 0) (snd (emit env1 ''s'' no_args three_on_s)) = 1 \<and>
   invocations (Func 1) (snd (emit env1 ''s'' no_args three_on_s)) = 1 \<and>
   invocations (Func 2) (snd (emit env1 ''s'' no_args three_on_s)) = 0"
proof -
  let ?s1 = "snd (emit_loop env1 [Func 0] no_args (snd (getitem ''s'' three_on_s)))"
  let ?s2 = "snd (invoke env1 (Func 1) no_args (before_call (Func 1) ?s1))"
  have order: "iter env1 (recv three_on_s ''s'') = [Func 0] @ Func 1 # [Func 2]"
    by code_simp
  have "fst (emit_loop env1 [Func 0] no_args (snd (getitem ''s'' three_on_s))) = Return ()"
    by code_simp
  then have pre: "emit_loop env1 [Func 0] no_args (snd (getitem ''s'' three_on_s)) = (Return (), ?s1)"
    by (metis prod.collapse)
  have live: "\<not> exhausted (max_calls ?s1 (Func 1))"
    by code_simp
  have "fst (invoke env1 (Func 1) no_args (before_call (Func 1) ?s1)) = Raise (UserError 2)"
    by code_simp
  then have raise: "invoke env1 (Func 1) no_args (before_call (Func 1) ?s1) = (Raise (UserError 2), ?s2)"
    by (metis prod.collapse)
  have run: "emit env1 ''s'' no_args three_on_s = (Raise (UserError 2), ?s2)"
    using emit_fail_fast [OF order pre live raise] by simp
  have "invocations (Func 0) ?s2 = 1" "invocations (Func 1) ?s2 = 1" "invocations (Func 2) ?s2 = 0"
    by code_simp+
  with run show ?thesis by simp
qed

section \<open>Scoped emission\<close>

text \<open>
  C6 (as amended). If the emission of the enter signal raises, \<^verbatim>\<open>emitting\<close> raises that
  exception in the state the emission left: the block does not run and the exit signal is
  not emitted. Otherwise the block runs in the state the enter emission left (the given
  state when there is no enter signal), and the exit signal is emitted in the state the
  block left, whether the block returned or raised: the final state is the one after the
  exit emission. When the exit emission returns, the caller gets the block's outcome, so
  an exception of the block propagates; when a callback of the exit emission raises, the
  caller gets that exception instead.
\<close>

theorem emitting_brackets:
  "((case enter of None \<Rightarrow> (Return (), s) | Some k \<Rightarrow> emit e k no_args s) = (Raise x, s1)
      \<longrightarrow> emitting e exit enter blk s = (Raise x, s1)) \<and>
   ((case enter of None \<Rightarrow> (Return (), s) | Some k \<Rightarrow> emit e k no_args s) = (Return (), s1) \<and>
    blk s1 = (r2, s2) \<and> emit e exit no_args s2 = (r3, s3)
      \<longrightarrow> snd (emitting e exit enter blk s) = s3 \<and>
          (r3 = Return () \<longrightarrow> fst (emitting e exit enter blk s) = r2) \<and>
          (\<forall>y. r3 = Raise y \<longrightarrow> fst (emitting e exit enter blk s) = Raise y))"
  by (cases r3) (simp_all add: emitting_def)

theorem emitting_brackets_witness:
  "fst (emitting env0 ''exit'' (Some ''enter'') failing_block scope_state) = Raise (UserError 7) \<and>
   map fst (trace (snd (emitting env0 ''exit'' (Some ''enter'') failing_block scope_state)))
     = [Func 0, Func 9, Func 1] \<and>
   fst (emitting env1 ''enter'' (Some ''exit'') failing_block scope_state) = Raise (UserError 2) \<and>
   map fst (trace (snd (emitting env1 ''enter'' (Some ''exit'') failing_block scope_state)))
     = [Func 1]"
proof -
  let ?s1 = "snd (emit env0 ''enter'' no_args scope_state)"
  let ?s2 = "snd (failing_block ?s1)"
  let ?s3 = "snd (emit env0 ''exit'' no_args ?s2)"
  let ?t1 = "snd (emit env1 ''exit'' no_args scope_state)"
  have "fst (emit env0 ''enter'' no_args scope_state) = Return ()"
    by code_simp
  then have enter: "(case Some ''enter'' of None \<Rightarrow> (Return (), scope_state)
                     | Some k \<Rightarrow> emit env0 k no_args scope_state) = (Return (), ?s1)"
    by (simp add: prod_eq_iff)
  have body: "failing_block ?s1 = (Raise (UserError 7), ?s2)"
    by (simp add: failing_block_def)
  have "fst (emit env0 ''exit'' no_args ?s2) = Return ()"
    by code_simp
  then have exit: "emit env0 ''exit'' no_args ?s2 = (Return (), ?s3)"
    by (simp add: prod_eq_iff)
  have calls: "map fst (trace ?s3) = [Func 0, Func 9, Func 1]"
    by code_simp
  have normal: "snd (emitting env0 ''exit'' (Some ''enter'') failing_block scope_state) = ?s3 \<and>
      fst (emitting env0 ''exit'' (Some ''enter'') failing_block scope_state) = Raise (UserError 7)"
    using emitting_brackets [where blk = failing_block and enter = "Some ''enter''" and e = env0
      and s = scope_state and exit = "''exit''" and ?s1.0 = ?s1 and ?s2.0 = ?s2 and ?s3.0 = ?s3
      and ?r2.0 = "Raise (UserError 7)" and ?r3.0 = "Return ()"] enter body exit
    by blast
  have "fst (emit env1 ''exit'' no_args scope_state) = Raise (UserError 2)"
    by code_simp
  then have fails: "(case Some ''exit'' of None \<Rightarrow> (Return (), scope_state)
                     | Some k \<Rightarrow> emit env1 k no_args scope_state) = (Raise (UserError 2), ?t1)"
    by (simp add: prod_eq_iff)
  have early: "emitting env1 ''enter'' (Some ''exit'') failing_block scope_state
                 = (Raise (UserError 2), ?t1)"
    using emitting_brackets [where blk = failing_block and enter = "Some ''exit''" and e = env1
      and s = scope_state and exit = "''enter''" and ?s1.0 = ?t1 and x = "UserError 2"] fails
    by blast
  have calls': "map fst (trace ?t1) = [Func 1]"
    by code_simp
  show ?thesis using normal calls early calls' by simp
qed

text \<open>
  The block raises \<open>UserError 7\<close>, the callback of the exit signal raises \<open>UserError 2\<close>, and
  the caller sees the latter.
\<close>

theorem exit_exception_counterexample:
  "fst (failing_block (snd (emit env1 ''enter'' no_args scope_state))) = Raise (UserError 7) \<and>
   fst (emitting env1 ''exit'' (Some ''enter'') failing_block scope_state) = Raise (UserError 2)"
  by code_simp

section \<open>Bound methods\<close>

lemma on_method:
  "on sg (MethodObj m) mc s =
     (Return (Registered (Wrapper (wrappers_made s) m)),
      snd (priv_on sg (FuncObj (Wrapper (wrappers_made s) m)) mc
             (s\<lparr>wrappers_made := Suc (wrappers_made s)\<rparr>)))"
  by (simp add: on_def priv_on_def Let_def)

lemma on_method_obs:
  "fst (on sg (MethodObj m) mc s) = Return (Registered (Wrapper (wrappers_made s) m))"
  "recv (snd (on sg (MethodObj m) mc s)) k =
     (if k \<in> set (as_list sg) then finsert (Wrapper (wrappers_made s) m) (recv s k) else recv s k)"
  "wrappers_made (snd (on sg (MethodObj m) mc s)) = Suc (wrappers_made s)"
  "max_calls (snd (on sg (MethodObj m) mc s)) = (max_calls s)(Wrapper (wrappers_made s) m := limit_of mc)"
  by (simp_all add: on_method priv_on_func)

lemma fresh_not_member:
  "wrappers_fresh s \<Longrightarrow> wrappers_made s \<le> j \<Longrightarrow> Wrapper j m |\<notin>| recv s k"
proof
  assume fresh: "wrappers_fresh s" and le: "wrappers_made s \<le> j"
    and mem: "Wrapper j m |\<in>| recv s k"
  from fresh mem have "older_than (wrappers_made s) (Wrapper j m)"
    unfolding wrappers_fresh_def by blast
  with le show False by simp
qed

text \<open>
  C10. \<^verbatim>\<open>on\<close> with a bound method registers a closure created by that call, which was not
  in the registry before; \<^verbatim>\<open>responds_to\<close> is false for the bound method itself; and a second
  registration of the same bound method for the same signal adds a second, different
  closure, so the set of the signal has grown by two.
\<close>

theorem bound_method_wrapped:
  assumes "wrappers_fresh s"
  shows "fst (on (Single k) (MethodObj m) mc s) = Return (Registered (Wrapper (wrappers_made s) m)) \<and>
         Wrapper (wrappers_made s) m |\<notin>| recv s k \<and>
         recv (snd (on (Single k) (MethodObj m) mc s)) k
           = finsert (Wrapper (wrappers_made s) m) (recv s k) \<and>
         \<not> fst (responds_to (MethodObj m) k (snd (on (Single k) (MethodObj m) mc s))) \<and>
         fst (on (Single k) (MethodObj m) mc' (snd (on (Single k) (MethodObj m) mc s)))
           = Return (Registered (Wrapper (Suc (wrappers_made s)) m)) \<and>
         recv (snd (on (Single k) (MethodObj m) mc' (snd (on (Single k) (MethodObj m) mc s)))) k
           = finsert (Wrapper (Suc (wrappers_made s)) m)
               (finsert (Wrapper (wrappers_made s) m) (recv s k)) \<and>
         fcard (recv (snd (on (Single k) (MethodObj m) mc' (snd (on (Single k) (MethodObj m) mc s)))) k)
           = fcard (recv s k) + 2"
proof -
  have a: "Wrapper (wrappers_made s) m |\<notin>| recv s k"
    using assms by (simp add: fresh_not_member)
  have b: "Wrapper (Suc (wrappers_made s)) m |\<notin>| recv s k"
    using assms by (simp add: fresh_not_member)
  show ?thesis
    using a b by (simp add: on_method_obs fcard_finsert_disjoint)
qed

theorem bound_method_wrapped_witness:
  "fst (on (Single ''s'') (MethodObj 4) None init_state) = Return (Registered (Wrapper 0 4)) \<and>
   \<not> fst (responds_to (MethodObj 4) ''s'' (snd (on (Single ''s'') (MethodObj 4) None init_state))) \<and>
   recv (snd (on (Single ''s'') (MethodObj 4) None
                (snd (on (Single ''s'') (MethodObj 4) None init_state)))) ''s''
     = {|Wrapper 1 4, Wrapper 0 4|}"
proof -
  have fresh: "wrappers_fresh init_state"
    by (simp add: wrappers_fresh_def init_state_def recv_def)
  have w: "wrappers_made init_state = 0" and r: "recv init_state ''s'' = {||}"
    by (simp_all add: init_state_def recv_def)
  from bound_method_wrapped [OF fresh, of "''s''" 4 None None] show ?thesis
    by (simp add: w r)
qed

section \<open>Emission when the callbacks leave the module alone\<close>

lemma invoke_inert:
  "inert e c \<Longrightarrow> invoke e c a s = (Return (), s\<lparr>trace := trace s @ [(c, a)]\<rparr>)"
  unfolding inert_def by blast

lemma priv_call_inert:
  assumes "inert e c" and "keys_distinct s"
  shows "fst (priv_call e c a s) = Return ()"
    and "keys (snd (priv_call e c a s)) = keys s"
    and "recv (snd (priv_call e c a s)) k =
           (if exhausted (max_calls s c) then recv s k |-| {|c|} else recv s k)"
    and "max_calls (snd (priv_call e c a s)) =
           (if exhausted (max_calls s c) then max_calls s
            else (max_calls s)(c := after_call (max_calls s c)))"
    and "trace (snd (priv_call e c a s)) =
           (if exhausted (max_calls s c) then trace s else trace s @ [(c, a)])"
    and "wrappers_made (snd (priv_call e c a s)) = wrappers_made s"
    and "helper_attr (snd (priv_call e c a s)) = helper_attr s"
proof -
  note D = disconnect_ok [OF assms(2), of c]
  note I = invoke_inert [OF assms(1)]
  show "fst (priv_call e c a s) = Return ()"
    by (cases "max_calls s c") (simp_all add: priv_call_def I D)
  show "keys (snd (priv_call e c a s)) = keys s"
    by (cases "max_calls s c") (simp_all add: priv_call_def I D)
  show "recv (snd (priv_call e c a s)) k =
           (if exhausted (max_calls s c) then recv s k |-| {|c|} else recv s k)"
    by (cases "max_calls s c") (simp_all add: priv_call_def I D)
  show "max_calls (snd (priv_call e c a s)) =
           (if exhausted (max_calls s c) then max_calls s
            else (max_calls s)(c := after_call (max_calls s c)))"
    by (cases "max_calls s c") (auto simp: priv_call_def I D fun_eq_iff)
  show "trace (snd (priv_call e c a s)) =
           (if exhausted (max_calls s c) then trace s else trace s @ [(c, a)])"
    by (cases "max_calls s c") (simp_all add: priv_call_def I D)
  show "wrappers_made (snd (priv_call e c a s)) = wrappers_made s"
    by (cases "max_calls s c") (simp_all add: priv_call_def I D)
  show "helper_attr (snd (priv_call e c a s)) = helper_attr s"
    by (cases "max_calls s c") (simp_all add: priv_call_def I D)
qed


lemma count_in_distinct:
  "distinct xs \<Longrightarrow>
   length (filter (\<lambda>p. fst p = c) (map (\<lambda>d. (d, a)) (filter P xs))) =
     (if c \<in> set xs \<and> P c then 1 else 0)"
  by (induction xs) auto

lemma emit_loop_inert:
  assumes "distinct xs" and "\<forall>d\<in>set xs. inert e d" and "keys_distinct s"
  shows "fst (emit_loop e xs a s) = Return () \<and>
         keys (snd (emit_loop e xs a s)) = keys s \<and>
         (\<forall>k. recv (snd (emit_loop e xs a s)) k =
                ffilter (\<lambda>d. \<not> (d \<in> set xs \<and> exhausted (max_calls s d))) (recv s k)) \<and>
         (\<forall>d. max_calls (snd (emit_loop e xs a s)) d =
                (if d \<in> set xs \<and> \<not> exhausted (max_calls s d)
                 then after_call (max_calls s d) else max_calls s d)) \<and>
         trace (snd (emit_loop e xs a s)) =
           trace s @ map (\<lambda>d. (d, a)) (filter (\<lambda>d. \<not> exhausted (max_calls s d)) xs) \<and>
         wrappers_made (snd (emit_loop e xs a s)) = wrappers_made s \<and>
         helper_attr (snd (emit_loop e xs a s)) = helper_attr s"
  using assms
proof (induction xs arbitrary: s)
  case Nil
  then show ?case by (auto simp: fset_eq_iff)
next
  case (Cons c xs)
  let ?s1 = "snd (priv_call e c a s)"
  have c: "inert e c" and kd: "keys_distinct s" using Cons.prems by simp_all
  note P = priv_call_inert [OF c kd, of a]
  have unfold: "emit_loop e (c # xs) a s = emit_loop e xs a ?s1"
    by (simp add: split_beta P(1))
  have kd1: "keys_distinct ?s1"
    using kd P(2) by (simp add: keys_distinct_def)
  have notin: "c \<notin> set xs" and dxs: "distinct xs" and ixs: "\<forall>d\<in>set xs. inert e d"
    using Cons.prems by simp_all
  have same: "\<And>d. d \<in> set xs \<Longrightarrow> max_calls ?s1 d = max_calls s d"
    using notin by (auto simp: P(4))
  note IH = Cons.IH [OF dxs ixs kd1]
  have f1: "filter (\<lambda>d. \<not> exhausted (max_calls ?s1 d)) xs
          = filter (\<lambda>d. \<not> exhausted (max_calls s d)) xs"
    by (rule filter_cong) (simp_all add: same)
  have r: "\<And>k. recv (snd (emit_loop e xs a ?s1)) k =
             ffilter (\<lambda>d. \<not> (d \<in> set (c # xs) \<and> exhausted (max_calls s d))) (recv s k)"
  proof -
    fix k
    have "recv (snd (emit_loop e xs a ?s1)) k =
            ffilter (\<lambda>d. \<not> (d \<in> set xs \<and> exhausted (max_calls ?s1 d))) (recv ?s1 k)"
      using IH by simp
    also have "\<dots> = ffilter (\<lambda>d. \<not> (d \<in> set (c # xs) \<and> exhausted (max_calls s d))) (recv s k)"
      using same notin by (auto simp: P(3) P(4))
    finally show "recv (snd (emit_loop e xs a ?s1)) k =
             ffilter (\<lambda>d. \<not> (d \<in> set (c # xs) \<and> exhausted (max_calls s d))) (recv s k)" .
  qed
  have m: "\<And>d. max_calls (snd (emit_loop e xs a ?s1)) d =
                (if d \<in> set (c # xs) \<and> \<not> exhausted (max_calls s d)
                 then after_call (max_calls s d) else max_calls s d)"
  proof -
    fix d
    have "max_calls (snd (emit_loop e xs a ?s1)) d =
            (if d \<in> set xs \<and> \<not> exhausted (max_calls ?s1 d)
             then after_call (max_calls ?s1 d) else max_calls ?s1 d)"
      using IH by simp
    also have "\<dots> = (if d \<in> set (c # xs) \<and> \<not> exhausted (max_calls s d)
                 then after_call (max_calls s d) else max_calls s d)"
      using same notin by (auto simp: P(4))
    finally show "max_calls (snd (emit_loop e xs a ?s1)) d =
                (if d \<in> set (c # xs) \<and> \<not> exhausted (max_calls s d)
                 then after_call (max_calls s d) else max_calls s d)" .
  qed
  have t: "trace (snd (emit_loop e xs a ?s1)) =
           trace s @ map (\<lambda>d. (d, a)) (filter (\<lambda>d. \<not> exhausted (max_calls s d)) (c # xs))"
    using IH by (simp add: f1 P(5))
  show ?case
    unfolding unfold using IH r m t by (simp add: P)
qed


lemma iter_ok_set: "iter_ok e \<Longrightarrow> set (iter e A) = fset A"
  unfolding iter_ok_def by (metis fset_of_list.rep_eq)

lemma iter_ok_distinct: "iter_ok e \<Longrightarrow> distinct (iter e A)"
  unfolding iter_ok_def by blast

lemma getitem_keys_distinct: "keys_distinct s \<Longrightarrow> keys_distinct (snd (getitem k s))"
  by (simp add: keys_distinct_def)

lemma emit_inert:
  assumes "iter_ok e" and "keys_distinct s" and "\<forall>d. d |\<in>| recv s k \<longrightarrow> inert e d"
  shows "fst (emit e k a s) = Return ()"
    and "keys_distinct (snd (emit e k a s))"
    and "recv (snd (emit e k a s)) k' =
           ffilter (\<lambda>d. \<not> (d |\<in>| recv s k \<and> exhausted (max_calls s d))) (recv s k')"
    and "max_calls (snd (emit e k a s)) d =
           (if d |\<in>| recv s k \<and> \<not> exhausted (max_calls s d)
            then after_call (max_calls s d) else max_calls s d)"
    and "invocations c (snd (emit e k a s)) =
           invocations c s + (if c |\<in>| recv s k \<and> \<not> exhausted (max_calls s c) then 1 else 0)"
    and "wrappers_made (snd (emit e k a s)) = wrappers_made s"
    and "helper_attr (snd (emit e k a s)) = helper_attr s"
proof -
  let ?xs = "iter e (recv s k)"
  let ?s0 = "snd (getitem k s)"
  have eq: "emit e k a s = emit_loop e ?xs a ?s0"
    by (simp add: emit_def split_beta)
  have set: "set ?xs = fset (recv s k)" using assms(1) by (rule iter_ok_set)
  have d: "distinct ?xs" using assms(1) by (rule iter_ok_distinct)
  have i: "\<forall>d\<in>set ?xs. inert e d" using assms(3) by (simp add: set)
  have kd: "keys_distinct ?s0" using assms(2) by (rule getitem_keys_distinct)
  note L = emit_loop_inert [OF d i kd, of a]
  show "fst (emit e k a s) = Return ()" using L by (simp add: eq)
  show "keys_distinct (snd (emit e k a s))" using L kd by (simp add: eq keys_distinct_def)
  show "recv (snd (emit e k a s)) k' =
           ffilter (\<lambda>d. \<not> (d |\<in>| recv s k \<and> exhausted (max_calls s d))) (recv s k')"
    using L by (simp add: eq set)
  show "max_calls (snd (emit e k a s)) d =
           (if d |\<in>| recv s k \<and> \<not> exhausted (max_calls s d)
            then after_call (max_calls s d) else max_calls s d)"
    using L by (simp add: eq set)
  show "wrappers_made (snd (emit e k a s)) = wrappers_made s" using L by (simp add: eq)
  show "helper_attr (snd (emit e k a s)) = helper_attr s" using L by (simp add: eq)
  have "trace (snd (emit e k a s)) =
          trace s @ map (\<lambda>d. (d, a)) (filter (\<lambda>d. \<not> exhausted (max_calls s d)) ?xs)"
    using L by (simp add: eq)
  then show "invocations c (snd (emit e k a s)) =
           invocations c s + (if c |\<in>| recv s k \<and> \<not> exhausted (max_calls s c) then 1 else 0)"
    using count_in_distinct [OF d, of c a "\<lambda>d. \<not> exhausted (max_calls s d)"]
    by (simp add: invocations_def set)
qed

lemma on_func:
  "on sg (FuncObj c) mc s = (Return (Registered c), snd (priv_on sg (FuncObj c) mc s))"
  by (simp add: on_def priv_on_def Let_def)

lemma on_func_obs:
  "recv (snd (on sg (FuncObj c) mc s)) k =
     (if k \<in> set (as_list sg) then finsert c (recv s k) else recv s k)"
  "max_calls (snd (on sg (FuncObj c) mc s)) = (max_calls s)(c := limit_of mc)"
  "wrappers_made (snd (on sg (FuncObj c) mc s)) = wrappers_made s"
  "trace (snd (on sg (FuncObj c) mc s)) = trace s"
  "keys_distinct s \<Longrightarrow> keys_distinct (snd (on sg (FuncObj c) mc s))"
  by (simp_all add: on_func priv_on_func priv_on_keys_distinct)

lemma invocations_trace: "trace s' = trace s \<Longrightarrow> invocations c s' = invocations c s"
  by (simp add: invocations_def)

text \<open>One emission, seen from a callback \<open>c\<close> registered for the signal.\<close>

lemma emit_inert_member:
  assumes "iter_ok e" and "keys_distinct s" and "\<forall>d. d |\<in>| recv s k \<longrightarrow> inert e d"
      and "c |\<in>| recv s k" and "emit e k a s = (r, s')"
  shows "r = Return ()"
    and "keys_distinct s'"
    and "\<forall>d. d |\<in>| recv s' k \<longrightarrow> inert e d"
    and "\<not> exhausted (max_calls s c) \<Longrightarrow> max_calls s' c = after_call (max_calls s c)"
    and "\<not> exhausted (max_calls s c) \<Longrightarrow> invocations c s' = invocations c s + 1"
    and "\<not> exhausted (max_calls s c) \<Longrightarrow> (c |\<in>| recv s' k') = (c |\<in>| recv s k')"
    and "exhausted (max_calls s c) \<Longrightarrow> max_calls s' c = max_calls s c"
    and "exhausted (max_calls s c) \<Longrightarrow> invocations c s' = invocations c s"
    and "exhausted (max_calls s c) \<Longrightarrow> c |\<notin>| recv s' k'"
proof -
  have r: "r = fst (emit e k a s)" and s': "s' = snd (emit e k a s)"
    using assms(5) by simp_all
  note E = emit_inert [OF assms(1-3), where a = a]
  show "r = Return ()" by (simp add: r E)
  show "keys_distinct s'" by (simp add: s' E)
  show "\<forall>d. d |\<in>| recv s' k \<longrightarrow> inert e d" using assms(3) by (simp add: s' E)
  show "\<not> exhausted (max_calls s c) \<Longrightarrow> max_calls s' c = after_call (max_calls s c)"
    using assms(4) by (simp add: s' E)
  show "\<not> exhausted (max_calls s c) \<Longrightarrow> invocations c s' = invocations c s + 1"
    using assms(4) by (simp add: s' E)
  show "\<not> exhausted (max_calls s c) \<Longrightarrow> (c |\<in>| recv s' k') = (c |\<in>| recv s k')"
    by (simp add: s' E)
  show "exhausted (max_calls s c) \<Longrightarrow> max_calls s' c = max_calls s c"
    by (simp add: s' E)
  show "exhausted (max_calls s c) \<Longrightarrow> invocations c s' = invocations c s"
    by (simp add: s' E)
  show "exhausted (max_calls s c) \<Longrightarrow> c |\<notin>| recv s' k'"
    using assms(4) by (simp add: s' E)
qed

section \<open>The concrete environment is admissible\<close>

lemma distinct_sorted_list_of_fset: "distinct (sorted_list_of_fset A)"
  by (simp add: sorted_list_of_fset.rep_eq)

lemma env0_iter_ok: "iter_ok env0"
  by (simp add: iter_ok_def env0_def distinct_sorted_list_of_fset)

lemma env0_inert: "inert env0 c"
  by (cases c) (simp_all add: inert_def env0_def quiet_def)

lemma init_state_obs:
  "keys_distinct init_state"
  "recv init_state k = {||}"
  "invocations c init_state = 0"
  "wrappers_made init_state = 0"
  by (simp_all add: keys_distinct_def keys_def recv_def invocations_def init_state_def)

section \<open>Call limits\<close>

text \<open>
  C2. A callback \<open>c\<close> is registered with \<^verbatim>\<open>max_calls=2\<close> for a signal whose callbacks, \<open>c\<close>
  included, return and leave the module alone. Three emissions of the signal all return;
  the first two call \<open>c\<close> once each; the third finds the counter at \<open>0\<close>, does not call
  \<open>c\<close> and removes it from the set of every signal, so \<^verbatim>\<open>responds_to\<close> is false afterwards.
\<close>

theorem limit_two_three_emissions:
  assumes ok: "iter_ok e" and kd: "keys_distinct s0"
      and ic: "inert e c" and io: "\<forall>d. d |\<in>| recv s0 k \<longrightarrow> inert e d"
      and reg: "on (Single k) (FuncObj c) (Some 2) s0 = (r0, s1)"
      and e1: "emit e k a1 s1 = (r1, s2)"
      and e2: "emit e k a2 s2 = (r2, s3)"
      and e3: "emit e k a3 s3 = (r3, s4)"
  shows "r1 = Return () \<and> r2 = Return () \<and> r3 = Return () \<and>
         invocations c s2 = invocations c s0 + 1 \<and>
         invocations c s3 = invocations c s0 + 2 \<and>
         invocations c s4 = invocations c s0 + 2 \<and>
         max_calls s3 c = Remaining 0 \<and> c |\<in>| recv s3 k \<and>
         (\<forall>k'. c |\<notin>| recv s4 k') \<and> \<not> fst (responds_to (FuncObj c) k s4)"
proof -
  have s1: "s1 = snd (on (Single k) (FuncObj c) (Some 2) s0)" using reg by simp
  have kd1: "keys_distinct s1" using kd by (simp add: s1 on_func_obs)
  have m1: "c |\<in>| recv s1 k" by (simp add: s1 on_func_obs)
  have i1: "\<forall>d. d |\<in>| recv s1 k \<longrightarrow> inert e d" using ic io by (simp add: s1 on_func_obs)
  have l1: "max_calls s1 c = Remaining 2" by (simp add: s1 on_func_obs)
  have n1: "invocations c s1 = invocations c s0"
    by (rule invocations_trace) (simp add: s1 on_func_obs)
  note A = emit_inert_member [OF ok kd1 i1 m1 e1]
  have x1: "\<not> exhausted (max_calls s1 c)" by (simp add: l1)
  have l2: "max_calls s2 c = Remaining 1" using A(4) [OF x1] by (simp add: l1)
  have n2: "invocations c s2 = invocations c s0 + 1" using A(5) [OF x1] by (simp add: n1)
  have m2: "c |\<in>| recv s2 k" using A(6) [OF x1, of k] m1 by simp
  note B = emit_inert_member [OF ok A(2) A(3) m2 e2]
  have x2: "\<not> exhausted (max_calls s2 c)" by (simp add: l2)
  have l3: "max_calls s3 c = Remaining 0" using B(4) [OF x2] by (simp add: l2)
  have n3: "invocations c s3 = invocations c s0 + 2" using B(5) [OF x2] by (simp add: n2)
  have m3: "c |\<in>| recv s3 k" using B(6) [OF x2, of k] m2 by simp
  note C = emit_inert_member [OF ok B(2) B(3) m3 e3]
  have x3: "exhausted (max_calls s3 c)" by (simp add: l3)
  have n4: "invocations c s4 = invocations c s0 + 2" using C(8) [OF x3] by (simp add: n3)
  have m4: "\<And>k'. c |\<notin>| recv s4 k'" using C(9) [OF x3] by simp
  show ?thesis
    using A(1) B(1) C(1) n2 n3 n4 l3 m3 m4 by simp
qed

theorem limit_two_three_emissions_witness:
  "invocations (Func 0)
     (snd (emit env0 ''tick'' no_args (snd (emit env0 ''tick'' no_args
        (snd (emit env0 ''tick'' no_args
           (snd (on (Single ''tick'') (FuncObj (Func 0)) (Some 2) init_state)))))))) = 2 \<and>
   \<not> fst (responds_to (FuncObj (Func 0)) ''tick''
     (snd (emit env0 ''tick'' no_args (snd (emit env0 ''tick'' no_args
        (snd (emit env0 ''tick'' no_args
           (snd (on (Single ''tick'') (FuncObj (Func 0)) (Some 2) init_state)))))))))"
proof -
  let ?s1 = "snd (on (Single ''tick'') (FuncObj (Func 0)) (Some 2) init_state)"
  let ?s2 = "snd (emit env0 ''tick'' no_args ?s1)"
  let ?s3 = "snd (emit env0 ''tick'' no_args ?s2)"
  let ?s4 = "snd (emit env0 ''tick'' no_args ?s3)"
  have others: "\<forall>d. d |\<in>| recv init_state ''tick'' \<longrightarrow> inert env0 d"
    by (simp add: init_state_obs)
  have reg: "on (Single ''tick'') (FuncObj (Func 0)) (Some 2) init_state
               = (fst (on (Single ''tick'') (FuncObj (Func 0)) (Some 2) init_state), ?s1)"
    by simp
  have e1: "emit env0 ''tick'' no_args ?s1 = (fst (emit env0 ''tick'' no_args ?s1), ?s2)" by simp
  have e2: "emit env0 ''tick'' no_args ?s2 = (fst (emit env0 ''tick'' no_args ?s2), ?s3)" by simp
  have e3: "emit env0 ''tick'' no_args ?s3 = (fst (emit env0 ''tick'' no_args ?s3), ?s4)" by simp
  from limit_two_three_emissions [OF env0_iter_ok init_state_obs(1) env0_inert others reg e1 e2 e3]
  show ?thesis by (simp add: init_state_obs)
qed

lemma once_registered:
  assumes "once (Single k) x s0 = (Return (Registered c), s1)"
  shows "recv s1 k = finsert c (recv s0 k)"
    and "max_calls s1 c = Remaining 1"
    and "trace s1 = trace s0"
    and "keys_distinct s0 \<Longrightarrow> keys_distinct s1"
    and "x = FuncObj c \<or> (\<exists>m. x = MethodObj m \<and> c = Wrapper (wrappers_made s0) m)"
proof -
  have "recv s1 k = finsert c (recv s0 k) \<and> max_calls s1 c = Remaining 1 \<and> trace s1 = trace s0 \<and>
        (keys_distinct s0 \<longrightarrow> keys_distinct s1) \<and>
        (x = FuncObj c \<or> (\<exists>m. x = MethodObj m \<and> c = Wrapper (wrappers_made s0) m))"
  proof (cases x)
    case NoneObj
    with assms show ?thesis by (simp add: once_def on_def)
  next
    case (IntObj i)
    with assms show ?thesis by (simp add: once_def on_def)
  next
    case (FuncObj c')
    with assms have c: "c' = c" and s1: "s1 = snd (on (Single k) (FuncObj c) (Some 1) s0)"
      by (auto simp: once_def on_func)
    show ?thesis using FuncObj c by (simp add: s1 on_func_obs)
  next
    case (MethodObj m)
    let ?s0 = "s0\<lparr>wrappers_made := Suc (wrappers_made s0)\<rparr>"
    from assms MethodObj have c: "c = Wrapper (wrappers_made s0) m"
      and s1: "s1 = snd (priv_on (Single k) (FuncObj c) (Some 1) ?s0)"
      by (auto simp: once_def on_method)
    have kd: "keys_distinct s0 \<longrightarrow> keys_distinct s1"
      using priv_on_keys_distinct [of ?s0 "Single k" "FuncObj c" "Some 1"]
      by (simp add: s1 keys_distinct_def)
    show ?thesis using MethodObj c kd by (simp add: s1 priv_on_func)
  next
    case (OtherObj n)
    with assms show ?thesis by (simp add: once_def on_def priv_on_def)
  qed
  then show "recv s1 k = finsert c (recv s0 k)"
    and "max_calls s1 c = Remaining 1"
    and "trace s1 = trace s0"
    and "keys_distinct s0 \<Longrightarrow> keys_distinct s1"
    and "x = FuncObj c \<or> (\<exists>m. x = MethodObj m \<and> c = Wrapper (wrappers_made s0) m)"
    by simp_all
qed

text \<open>
  C1 (as amended). Let the callbacks of \<open>S\<close> return and leave the module alone, and let
  \<^verbatim>\<open>once(S, C)\<close> register the entry \<open>c\<close>: this is \<open>C\<close> itself when \<open>C\<close> is a function, and the new
  wrapper around \<open>C\<close> when \<open>C\<close> is a bound method. Two emissions of \<open>S\<close> both return and call
  \<open>c\<close> exactly once in total, in the first emission. After the first emission the counter
  of \<open>c\<close> is \<open>0\<close> and \<open>c\<close> is still registered for \<open>S\<close>; the second emission does not call \<open>c\<close>
  and removes it from every signal. So for a function \<open>C\<close>, \<^verbatim>\<open>responds_to(C, S)\<close> is true after
  the first emission and false after the second; for a bound method \<open>C\<close> it is false after
  the registration and after each emission.
\<close>

theorem once_two_emissions:
  assumes ok: "iter_ok e" and kd: "keys_distinct s0"
      and ic: "inert e c" and io: "\<forall>d. d |\<in>| recv s0 k \<longrightarrow> inert e d"
      and reg: "once (Single k) x s0 = (Return (Registered c), s1)"
      and e1: "emit e k a1 s1 = (r1, s2)"
      and e2: "emit e k a2 s2 = (r2, s3)"
  shows "r1 = Return () \<and> r2 = Return () \<and>
         invocations c s2 = invocations c s0 + 1 \<and>
         invocations c s3 = invocations c s0 + 1 \<and>
         max_calls s2 c = Remaining 0 \<and>
         fst (responds_to (FuncObj c) k s2) \<and>
         \<not> fst (responds_to (FuncObj c) k s3) \<and> (\<forall>k'. c |\<notin>| recv s3 k') \<and>
         (x = FuncObj c \<or>
          (\<exists>m. x = MethodObj m \<and> c = Wrapper (wrappers_made s0) m \<and>
               \<not> fst (responds_to x k s1) \<and> \<not> fst (responds_to x k s2) \<and>
               \<not> fst (responds_to x k s3)))"
proof -
  note R = once_registered [OF reg]
  have kd1: "keys_distinct s1" using kd by (rule R(4))
  have m1: "c |\<in>| recv s1 k" by (simp add: R(1))
  have i1: "\<forall>d. d |\<in>| recv s1 k \<longrightarrow> inert e d" using ic io by (simp add: R(1))
  have l1: "max_calls s1 c = Remaining 1" by (rule R(2))
  have n1: "invocations c s1 = invocations c s0"
    by (rule invocations_trace) (rule R(3))
  note A = emit_inert_member [OF ok kd1 i1 m1 e1]
  have x1: "\<not> exhausted (max_calls s1 c)" by (simp add: l1)
  have l2: "max_calls s2 c = Remaining 0" using A(4) [OF x1] by (simp add: l1)
  have n2: "invocations c s2 = invocations c s0 + 1" using A(5) [OF x1] by (simp add: n1)
  have m2: "c |\<in>| recv s2 k" using A(6) [OF x1, of k] m1 by simp
  note B = emit_inert_member [OF ok A(2) A(3) m2 e2]
  have x2: "exhausted (max_calls s2 c)" by (simp add: l2)
  have n3: "invocations c s3 = invocations c s0 + 1" using B(8) [OF x2] by (simp add: n2)
  have m3: "\<And>k'. c |\<notin>| recv s3 k'" using B(9) [OF x2] by simp
  have kind: "x = FuncObj c \<or>
          (\<exists>m. x = MethodObj m \<and> c = Wrapper (wrappers_made s0) m \<and>
               \<not> fst (responds_to x k s1) \<and> \<not> fst (responds_to x k s2) \<and>
               \<not> fst (responds_to x k s3))"
    using R(5) by auto
  show ?thesis
    using A(1) B(1) n2 n3 l2 m2 m3 kind by simp
qed

theorem once_two_emissions_witness:
  "invocations (Func 0)
     (snd (emit env0 ''s'' no_args (snd (emit env0 ''s'' no_args
        (snd (once (Single ''s'') (FuncObj (Func 0)) init_state)))))) = 1 \<and>
   fst (responds_to (FuncObj (Func 0)) ''s''
     (snd (emit env0 ''s'' no_args (snd (once (Single ''s'') (FuncObj (Func 0)) init_state))))) \<and>
   \<not> fst (responds_to (FuncObj (Func 0)) ''s''
     (snd (emit env0 ''s'' no_args (snd (emit env0 ''s'' no_args
        (snd (once (Single ''s'') (FuncObj (Func 0)) init_state))))))) \<and>
   invocations (Wrapper 0 4)
     (snd (emit env0 ''s'' no_args (snd (emit env0 ''s'' no_args
        (snd (once (Single ''s'') (MethodObj 4) init_state)))))) = 1 \<and>
   \<not> fst (responds_to (MethodObj 4) ''s''
     (snd (emit env0 ''s'' no_args (snd (once (Single ''s'') (MethodObj 4) init_state)))))"
proof -
  let ?s1 = "snd (once (Single ''s'') (FuncObj (Func 0)) init_state)"
  let ?s2 = "snd (emit env0 ''s'' no_args ?s1)"
  let ?s3 = "snd (emit env0 ''s'' no_args ?s2)"
  let ?t1 = "snd (once (Single ''s'') (MethodObj 4) init_state)"
  let ?t2 = "snd (emit env0 ''s'' no_args ?t1)"
  let ?t3 = "snd (emit env0 ''s'' no_args ?t2)"
  have others: "\<forall>d. d |\<in>| recv init_state ''s'' \<longrightarrow> inert env0 d"
    by (simp add: init_state_obs)
  have reg: "once (Single ''s'') (FuncObj (Func 0)) init_state = (Return (Registered (Func 0)), ?s1)"
    by (simp add: once_def on_func)
  have e1: "emit env0 ''s'' no_args ?s1 = (fst (emit env0 ''s'' no_args ?s1), ?s2)" by simp
  have e2: "emit env0 ''s'' no_args ?s2 = (fst (emit env0 ''s'' no_args ?s2), ?s3)" by simp
  note F = once_two_emissions [OF env0_iter_ok init_state_obs(1) env0_inert others reg e1 e2]
  have f1: "invocations (Func 0) ?s3 = 1" using F by (simp add: init_state_obs)
  have f2: "fst (responds_to (FuncObj (Func 0)) ''s'' ?s2)" using F by blast
  have f3: "\<not> fst (responds_to (FuncObj (Func 0)) ''s'' ?s3)" using F by blast
  have regm: "once (Single ''s'') (MethodObj 4) init_state = (Return (Registered (Wrapper 0 4)), ?t1)"
    by (simp add: once_def on_method init_state_obs)
  have d1: "emit env0 ''s'' no_args ?t1 = (fst (emit env0 ''s'' no_args ?t1), ?t2)" by simp
  have d2: "emit env0 ''s'' no_args ?t2 = (fst (emit env0 ''s'' no_args ?t2), ?t3)" by simp
  note M = once_two_emissions [OF env0_iter_ok init_state_obs(1) env0_inert others regm d1 d2]
  have g1: "invocations (Wrapper 0 4) ?t3 = 1" using M by (simp add: init_state_obs)
  have g2: "\<not> fst (responds_to (MethodObj 4) ''s'' ?t2)" using M by blast
  show ?thesis
  proof (intro conjI)
    show "invocations (Func 0) ?s3 = 1" by (rule f1)
    show "fst (responds_to (FuncObj (Func 0)) ''s'' ?s2)" by (rule f2)
    show "\<not> fst (responds_to (FuncObj (Func 0)) ''s'' ?s3)" by (rule f3)
    show "invocations (Wrapper 0 4) ?t3 = 1" by (rule g1)
    show "\<not> fst (responds_to (MethodObj 4) ''s'' ?t2)" by (rule g2)
  qed
qed

text \<open>Right after the first emission the callback still responds to the signal.\<close>

theorem once_still_registered_counterexample:
  "fst (responds_to (FuncObj (Func 0)) ''s''
     (snd (emit env0 ''s'' no_args (snd (once (Single ''s'') (FuncObj (Func 0)) init_state)))))"
  by code_simp

text \<open>
  C4. A callback registered with a limit \<open>n > 0\<close> for several signals has one counter. An
  emission of one of its signals \<open>A\<close> calls it and leaves \<open>n - 1\<close>; that is the value the
  dispatch of another of its signals \<open>B\<close> finds: with \<open>n = 1\<close> the emission of \<open>B\<close> does not
  call the callback and removes it from every signal, otherwise it calls it and leaves
  \<open>n - 2\<close>.
\<close>

theorem shared_counter:
  assumes ok: "iter_ok e" and kd: "keys_distinct s0"
      and ic: "inert e c"
      and io: "\<forall>d. d |\<in>| recv s0 A \<or> d |\<in>| recv s0 B \<longrightarrow> inert e d"
      and ks: "A \<in> set ks" "B \<in> set ks" and n: "0 < n"
      and reg: "on (Several ks) (FuncObj c) (Some n) s0 = (r0, s1)"
      and e1: "emit e A a1 s1 = (r1, s2)"
      and e2: "emit e B a2 s2 = (r2, s3)"
  shows "r1 = Return () \<and> r2 = Return () \<and>
         max_calls s1 c = Remaining n \<and>
         max_calls s2 c = Remaining (n - 1) \<and> invocations c s2 = invocations c s0 + 1 \<and>
         (if n = 1
          then invocations c s3 = invocations c s2 \<and> (\<forall>k. c |\<notin>| recv s3 k)
          else max_calls s3 c = Remaining (n - 2) \<and> invocations c s3 = invocations c s2 + 1)"
proof -
  have s1: "s1 = snd (on (Several ks) (FuncObj c) (Some n) s0)" using reg by simp
  have kd1: "keys_distinct s1" using kd by (simp add: s1 on_func_obs)
  have mA: "c |\<in>| recv s1 A" and mB: "c |\<in>| recv s1 B" using ks by (simp_all add: s1 on_func_obs)
  have iA: "\<forall>d. d |\<in>| recv s1 A \<longrightarrow> inert e d" using ic io ks by (simp add: s1 on_func_obs)
  have iB: "\<forall>d. d |\<in>| recv s1 B \<longrightarrow> inert e d" using ic io ks by (simp add: s1 on_func_obs)
  have l1: "max_calls s1 c = Remaining n" by (simp add: s1 on_func_obs)
  have n1: "invocations c s1 = invocations c s0"
    by (rule invocations_trace) (simp add: s1 on_func_obs)
  note P = emit_inert_member [OF ok kd1 iA mA e1]
  have x1: "\<not> exhausted (max_calls s1 c)" using n by (simp add: l1)
  have l2: "max_calls s2 c = Remaining (n - 1)" using P(4) [OF x1] by (simp add: l1)
  have n2: "invocations c s2 = invocations c s0 + 1" using P(5) [OF x1] by (simp add: n1)
  have mB2: "c |\<in>| recv s2 B" using P(6) [OF x1, of B] mB by simp
  have s2: "s2 = snd (emit e A a1 s1)" using e1 by simp
  have iB2: "\<forall>d. d |\<in>| recv s2 B \<longrightarrow> inert e d"
    using iB by (simp add: s2 emit_inert(3) [OF ok kd1 iA])
  note Q = emit_inert_member [OF ok P(2) iB2 mB2 e2]
  show ?thesis
  proof (cases "n = 1")
    case True
    then have x2: "exhausted (max_calls s2 c)" by (simp add: l2)
    show ?thesis using True P(1) Q(1) l1 l2 n2 Q(8) [OF x2] Q(9) [OF x2] by simp
  next
    case False
    then have x2: "\<not> exhausted (max_calls s2 c)" using n by (simp add: l2)
    have "max_calls s3 c = Remaining (n - 2)" using Q(4) [OF x2] by (simp add: l2)
    then show ?thesis using False P(1) Q(1) l1 l2 n2 Q(5) [OF x2] by simp
  qed
qed

theorem shared_counter_witness:
  "max_calls (snd (emit env0 ''a'' no_args
       (snd (on (Several [''a'', ''b'']) (FuncObj (Func 0)) (Some 1) init_state)))) (Func 0)
     = Remaining 0 \<and>
   invocations (Func 0) (snd (emit env0 ''b'' no_args (snd (emit env0 ''a'' no_args
       (snd (on (Several [''a'', ''b'']) (FuncObj (Func 0)) (Some 1) init_state)))))) = 1 \<and>
   Func 0 |\<notin>| recv (snd (emit env0 ''b'' no_args (snd (emit env0 ''a'' no_args
       (snd (on (Several [''a'', ''b'']) (FuncObj (Func 0)) (Some 1) init_state)))))) ''a''"
proof -
  let ?s1 = "snd (on (Several [''a'', ''b'']) (FuncObj (Func 0)) (Some 1) init_state)"
  let ?s2 = "snd (emit env0 ''a'' no_args ?s1)"
  let ?s3 = "snd (emit env0 ''b'' no_args ?s2)"
  have others: "\<forall>d. d |\<in>| recv init_state ''a'' \<or> d |\<in>| recv init_state ''b'' \<longrightarrow> inert env0 d"
    by (simp add: init_state_obs)
  have ks: "''a'' \<in> set [''a'', ''b'']" "''b'' \<in> set [''a'', ''b'']" by simp_all
  have n: "(0::int) < 1" by simp
  have reg: "on (Several [''a'', ''b'']) (FuncObj (Func 0)) (Some 1) init_state
               = (fst (on (Several [''a'', ''b'']) (FuncObj (Func 0)) (Some 1) init_state), ?s1)"
    by simp
  have e1: "emit env0 ''a'' no_args ?s1 = (fst (emit env0 ''a'' no_args ?s1), ?s2)" by simp
  have e2: "emit env0 ''b'' no_args ?s2 = (fst (emit env0 ''b'' no_args ?s2), ?s3)" by simp
  from shared_counter [OF env0_iter_ok init_state_obs(1) env0_inert others ks n reg e1 e2]
  show ?thesis by (simp add: init_state_obs)
qed

section \<open>Registering a pair again\<close>

lemma set_add_member: "c |\<in>| recv s k \<Longrightarrow> set_add k c s = s"
proof -
  assume mem: "c |\<in>| recv s k"
  then obtain A where A: "map_of (receivers s) k = Some A" and cA: "c |\<in>| A"
    by (auto simp: recv_def split: option.splits)
  have "finsert c A = A" using cA by auto
  then show "set_add k c s = s"
    using A by (simp add: set_add_def getitem_def store_def update_triv)
qed

lemma fold_set_add_member:
  "\<forall>k\<in>set ks. c |\<in>| recv s k \<Longrightarrow> fold (\<lambda>k. set_add k c) ks s = s"
  by (induction ks) (simp_all add: set_add_member)

lemma attach_present: "helper_attr s c h \<noteq> None \<Longrightarrow> attach c h s = s"
  by (auto simp: attach_def)

lemma attach_helper_attr:
  "helper_attr (attach c h s) c' h' =
     (if c' = c \<and> h' = h \<and> helper_attr s c h = None then Some BoundHelper else helper_attr s c' h')"
  by (simp add: attach_def)

lemma priv_on_helpers:
  "helper_attr (snd (priv_on sg (FuncObj c) mc s)) c h \<noteq> None"
  by (cases h) (simp_all add: priv_on_def Let_def attach_helper_attr)

lemma priv_on_again:
  assumes "\<forall>k\<in>set (as_list sg). c |\<in>| recv s k" and "\<forall>h. helper_attr s c h \<noteq> None"
  shows "priv_on sg (FuncObj c) mc s = (Return c, s\<lparr>max_calls := (max_calls s)(c := limit_of mc)\<rparr>)"
proof -
  let ?s1 = "s\<lparr>max_calls := (max_calls s)(c := limit_of mc)\<rparr>"
  have "\<forall>k\<in>set (as_list sg). c |\<in>| recv ?s1 k" using assms(1) by simp
  then have f: "fold (\<lambda>k. set_add k c) (as_list sg) ?s1 = ?s1" by (rule fold_set_add_member)
  have h: "\<And>h. attach c h ?s1 = ?s1"
    using assms(2) by (simp add: attach_present)
  show ?thesis
    by (simp only: priv_on_def Let_def f h callable.simps pyobj.case if_False not_True_eq_False)
qed

lemma priv_on_registered:
  assumes "c |\<in>| recv s k"
  shows "receivers (snd (priv_on (Single k) (FuncObj c) mc s)) = receivers s"
    and "helper_attr (snd (priv_on (Single k) (FuncObj c) mc s)) c' h =
           (if c' = c \<and> helper_attr s c h = None then Some BoundHelper else helper_attr s c' h)"
proof -
  let ?s1 = "s\<lparr>max_calls := (max_calls s)(c := limit_of mc)\<rparr>"
  have "c |\<in>| recv ?s1 k" using assms by simp
  then have f: "set_add k c ?s1 = ?s1" by (rule set_add_member)
  show "receivers (snd (priv_on (Single k) (FuncObj c) mc s)) = receivers s"
    by (simp add: priv_on_def Let_def f)
  show "helper_attr (snd (priv_on (Single k) (FuncObj c) mc s)) c' h =
           (if c' = c \<and> helper_attr s c h = None then Some BoundHelper else helper_attr s c' h)"
    by (cases h) (auto simp: priv_on_def Let_def f attach_helper_attr)
qed

text \<open>
  C3 (as amended). Let \<open>C\<close> be a function that is registered for \<open>S\<close>, in any state, and let
  the callbacks of \<open>S\<close> return and leave the module alone. Registering \<open>(C, S)\<close> again with
  \<^verbatim>\<open>on\<close> returns \<open>C\<close> and leaves the dictionary, the other counters and the calls made so far
  as they are. It overwrites the counter of \<open>C\<close> with the \<^verbatim>\<open>max_calls\<close> of this call and
  attaches the helper attributes \<open>C\<close> does not have; when \<open>C\<close> has all four, the counter is
  the only change. The next emission of \<open>S\<close> returns; it calls \<open>C\<close> once and keeps it
  registered, unless the new limit is an integer not above \<open>0\<close>: then it does not call \<open>C\<close>
  and removes it from every signal. For a bound method the registration is never without
  effect on the dictionary: it adds a wrapper that was not in the set of \<open>S\<close>.
\<close>

theorem reregistration:
  assumes ok: "iter_ok e" and kd: "keys_distinct s1"
      and mem: "c |\<in>| recv s1 k" and io: "\<forall>d. d |\<in>| recv s1 k \<longrightarrow> inert e d"
      and reg2: "on (Single k) (FuncObj c) mc2 s1 = (r2, s2)"
      and em: "emit e k a s2 = (r3, s3)"
  shows "r2 = Return (Registered c) \<and>
         receivers s2 = receivers s1 \<and>
         max_calls s2 = (max_calls s1)(c := limit_of mc2) \<and>
         trace s2 = trace s1 \<and> wrappers_made s2 = wrappers_made s1 \<and>
         (\<forall>c' h. helper_attr s2 c' h =
            (if c' = c \<and> helper_attr s1 c h = None then Some BoundHelper else helper_attr s1 c' h)) \<and>
         ((\<forall>h. helper_attr s1 c h \<noteq> None) \<longrightarrow>
            s2 = s1\<lparr>max_calls := (max_calls s1)(c := limit_of mc2)\<rparr>) \<and>
         r3 = Return () \<and>
         (if exhausted (limit_of mc2)
          then invocations c s3 = invocations c s1 \<and> (\<forall>k'. c |\<notin>| recv s3 k')
          else invocations c s3 = invocations c s1 + 1 \<and> c |\<in>| recv s3 k \<and>
               max_calls s3 c = after_call (limit_of mc2)) \<and>
         (\<forall>m. wrappers_fresh s1 \<longrightarrow>
            fst (on (Single k) (MethodObj m) mc2 s1)
              = Return (Registered (Wrapper (wrappers_made s1) m)) \<and>
            Wrapper (wrappers_made s1) m |\<notin>| recv s1 k \<and>
            recv (snd (on (Single k) (MethodObj m) mc2 s1)) k
              = finsert (Wrapper (wrappers_made s1) m) (recv s1 k))"
proof -
  have r2: "r2 = Return (Registered c)" using reg2 by (simp add: on_func)
  have s2: "s2 = snd (priv_on (Single k) (FuncObj c) mc2 s1)" using reg2 by (simp add: on_func)
  have rv: "receivers s2 = receivers s1" using mem by (simp add: s2 priv_on_registered)
  have mc: "max_calls s2 = (max_calls s1)(c := limit_of mc2)" by (simp add: s2 priv_on_func)
  have tr: "trace s2 = trace s1" by (simp add: s2 priv_on_func)
  have wm: "wrappers_made s2 = wrappers_made s1" by (simp add: s2 priv_on_func)
  have ha: "\<forall>c' h. helper_attr s2 c' h =
            (if c' = c \<and> helper_attr s1 c h = None then Some BoundHelper else helper_attr s1 c' h)"
    using mem by (simp add: s2 priv_on_registered)
  have exact: "(\<forall>h. helper_attr s1 c h \<noteq> None) \<longrightarrow>
            s2 = s1\<lparr>max_calls := (max_calls s1)(c := limit_of mc2)\<rparr>"
  proof
    assume h: "\<forall>h. helper_attr s1 c h \<noteq> None"
    have "\<forall>k'\<in>set (as_list (Single k)). c |\<in>| recv s1 k'" using mem by simp
    then have "priv_on (Single k) (FuncObj c) mc2 s1
                 = (Return c, s1\<lparr>max_calls := (max_calls s1)(c := limit_of mc2)\<rparr>)"
      using h by (rule priv_on_again)
    then show "s2 = s1\<lparr>max_calls := (max_calls s1)(c := limit_of mc2)\<rparr>" by (simp add: s2)
  qed
  have rc: "recv s2 = recv s1" using rv by (simp add: recv_def fun_eq_iff)
  have kd2: "keys_distinct s2" using kd rv by (simp add: keys_distinct_def keys_def)
  have m2: "c |\<in>| recv s2 k" using mem by (simp add: rc)
  have i2: "\<forall>d. d |\<in>| recv s2 k \<longrightarrow> inert e d" using io by (simp add: rc)
  have n2: "invocations c s2 = invocations c s1" by (rule invocations_trace) (rule tr)
  have l2: "max_calls s2 c = limit_of mc2" by (simp add: mc)
  note E = emit_inert_member [OF ok kd2 i2 m2 em]
  have fin: "if exhausted (limit_of mc2)
          then invocations c s3 = invocations c s1 \<and> (\<forall>k'. c |\<notin>| recv s3 k')
          else invocations c s3 = invocations c s1 + 1 \<and> c |\<in>| recv s3 k \<and>
               max_calls s3 c = after_call (limit_of mc2)"
  proof (cases "exhausted (limit_of mc2)")
    case True
    then have x: "exhausted (max_calls s2 c)" by (simp add: l2)
    show ?thesis using True E(8) [OF x] E(9) [OF x] by (simp add: n2)
  next
    case False
    then have x: "\<not> exhausted (max_calls s2 c)" by (simp add: l2)
    show ?thesis using False E(4) [OF x] E(5) [OF x] E(6) [OF x, of k] m2 by (simp add: n2 l2)
  qed
  have meth: "\<forall>m. wrappers_fresh s1 \<longrightarrow>
            fst (on (Single k) (MethodObj m) mc2 s1)
              = Return (Registered (Wrapper (wrappers_made s1) m)) \<and>
            Wrapper (wrappers_made s1) m |\<notin>| recv s1 k \<and>
            recv (snd (on (Single k) (MethodObj m) mc2 s1)) k
              = finsert (Wrapper (wrappers_made s1) m) (recv s1 k)"
    by (simp add: on_method_obs fresh_not_member)
  show ?thesis
    using r2 rv mc tr wm ha exact E(1) fin meth by blast
qed

theorem reregistration_witness:
  "snd (on (Single ''s'') (FuncObj (Func 0)) None
          (snd (on (Single ''s'') (FuncObj (Func 0)) None init_state)))
     = snd (on (Single ''s'') (FuncObj (Func 0)) None init_state)
          \<lparr>max_calls := (max_calls (snd (on (Single ''s'') (FuncObj (Func 0)) None init_state)))
                          (Func 0 := Unlimited)\<rparr> \<and>
   receivers (snd (on (Single ''s'') (FuncObj (Func 0)) None
          (snd (on (Single ''s'') (FuncObj (Func 0)) None init_state))))
     = receivers (snd (on (Single ''s'') (FuncObj (Func 0)) None init_state)) \<and>
   invocations (Func 0) (snd (emit env0 ''s'' no_args
      (snd (on (Single ''s'') (FuncObj (Func 0)) None
          (snd (on (Single ''s'') (FuncObj (Func 0)) None init_state)))))) = 1 \<and>
   invocations (Func 0) (snd (emit env0 ''s'' no_args
      (snd (on (Single ''s'') (FuncObj (Func 0)) (Some 0)
          (snd (on (Single ''s'') (FuncObj (Func 0)) None init_state)))))) = 0 \<and>
   Func 0 |\<notin>| recv (snd (emit env0 ''s'' no_args
      (snd (on (Single ''s'') (FuncObj (Func 0)) (Some 0)
          (snd (on (Single ''s'') (FuncObj (Func 0)) None init_state)))))) ''s'' \<and>
   recv (snd (on (Single ''s'') (MethodObj 4) None
          (snd (on (Single ''s'') (FuncObj (Func 0)) None init_state)))) ''s''
     = {|Wrapper 0 4, Func 0|}"
proof -
  let ?s1 = "snd (on (Single ''s'') (FuncObj (Func 0)) None init_state)"
  let ?s2 = "snd (on (Single ''s'') (FuncObj (Func 0)) None ?s1)"
  let ?s3 = "snd (emit env0 ''s'' no_args ?s2)"
  let ?t2 = "snd (on (Single ''s'') (FuncObj (Func 0)) (Some 0) ?s1)"
  let ?t3 = "snd (emit env0 ''s'' no_args ?t2)"
  have kd: "keys_distinct ?s1" by (simp add: on_func_obs init_state_obs)
  have mem: "Func 0 |\<in>| recv ?s1 ''s''" by (simp add: on_func_obs)
  have others: "\<forall>d. d |\<in>| recv ?s1 ''s'' \<longrightarrow> inert env0 d"
    by (simp add: env0_inert)
  have helpers: "\<forall>h. helper_attr ?s1 (Func 0) h \<noteq> None"
    by (simp add: on_func priv_on_helpers)
  have reg2: "on (Single ''s'') (FuncObj (Func 0)) None ?s1
               = (fst (on (Single ''s'') (FuncObj (Func 0)) None ?s1), ?s2)" by simp
  have em: "emit env0 ''s'' no_args ?s2 = (fst (emit env0 ''s'' no_args ?s2), ?s3)" by simp
  have n1: "invocations (Func 0) ?s1 = 0"
    using invocations_trace [of ?s1 init_state "Func 0"] by (simp add: on_func_obs init_state_obs)
  note T = reregistration [OF env0_iter_ok kd mem others reg2 em]
  have a0: "?s2 = ?s1\<lparr>max_calls := (max_calls ?s1)(Func 0 := limit_of None)\<rparr>"
    using T helpers by blast
  have a: "?s2 = ?s1\<lparr>max_calls := (max_calls ?s1)(Func 0 := Unlimited)\<rparr>"
    using a0 by (simp only: limit_of.simps)
  have b: "receivers ?s2 = receivers ?s1"
    using T by blast
  have c0: "if exhausted (limit_of None)
          then invocations (Func 0) ?s3 = invocations (Func 0) ?s1 \<and> (\<forall>k'. Func 0 |\<notin>| recv ?s3 k')
          else invocations (Func 0) ?s3 = invocations (Func 0) ?s1 + 1 \<and> Func 0 |\<in>| recv ?s3 ''s'' \<and>
               max_calls ?s3 (Func 0) = after_call (limit_of None)"
    using T by blast
  have c: "invocations (Func 0) ?s3 = 1"
    using c0 by (simp add: n1)
  have reg0: "on (Single ''s'') (FuncObj (Func 0)) (Some 0) ?s1
               = (fst (on (Single ''s'') (FuncObj (Func 0)) (Some 0) ?s1), ?t2)" by simp
  have em0: "emit env0 ''s'' no_args ?t2 = (fst (emit env0 ''s'' no_args ?t2), ?t3)" by simp
  note Z = reregistration [OF env0_iter_ok kd mem others reg0 em0]
  have d0: "if exhausted (limit_of (Some 0))
          then invocations (Func 0) ?t3 = invocations (Func 0) ?s1 \<and> (\<forall>k'. Func 0 |\<notin>| recv ?t3 k')
          else invocations (Func 0) ?t3 = invocations (Func 0) ?s1 + 1 \<and> Func 0 |\<in>| recv ?t3 ''s'' \<and>
               max_calls ?t3 (Func 0) = after_call (limit_of (Some 0))"
    using Z by blast
  have d: "invocations (Func 0) ?t3 = 0" and g: "Func 0 |\<notin>| recv ?t3 ''s''"
    using d0 by (simp_all add: n1)
  have fresh: "wrappers_fresh ?s1"
    by (simp add: wrappers_fresh_def on_func_obs init_state_obs)
  have w0: "recv (snd (on (Single ''s'') (MethodObj 4) None ?s1)) ''s''
              = finsert (Wrapper (wrappers_made ?s1) 4) (recv ?s1 ''s'')"
    using T fresh by blast
  have w: "recv (snd (on (Single ''s'') (MethodObj 4) None ?s1)) ''s'' = {|Wrapper 0 4, Func 0|}"
    using w0 by (simp add: on_func_obs init_state_obs)
  show ?thesis
  proof (intro conjI)
    show "?s2 = ?s1\<lparr>max_calls := (max_calls ?s1)(Func 0 := Unlimited)\<rparr>" by (rule a)
    show "receivers ?s2 = receivers ?s1" by (rule b)
    show "invocations (Func 0) ?s3 = 1" by (rule c)
    show "invocations (Func 0) ?t3 = 0" by (rule d)
    show "Func 0 |\<notin>| recv ?t3 ''s''" by (rule g)
    show "recv (snd (on (Single ''s'') (MethodObj 4) None ?s1)) ''s'' = {|Wrapper 0 4, Func 0|}"
      by (rule w)
  qed
qed

text \<open>
  A callback registered with \<^verbatim>\<open>max_calls=1\<close> and called once has the counter \<open>0\<close>; the same
  registration made again sets it back to \<open>1\<close>.
\<close>

theorem counter_overwritten_counterexample:
  "max_calls (snd (emit env0 ''s'' no_args
       (snd (on (Single ''s'') (FuncObj (Func 0)) (Some 1) init_state)))) (Func 0) = Remaining 0 \<and>
   max_calls (snd (on (Single ''s'') (FuncObj (Func 0)) (Some 1)
     (snd (emit env0 ''s'' no_args
       (snd (on (Single ''s'') (FuncObj (Func 0)) (Some 1) init_state)))))) (Func 0) = Remaining 1"
  by code_simp

section \<open>Callbacks that change the registry during an emission\<close>

lemma registry_only_invoke:
  assumes "registry_only e A c" and "keys_distinct s"
  shows "fst (invoke e c a s) = Return ()"
    and "keys_distinct (snd (invoke e c a s))"
    and "trace (snd (invoke e c a s)) = trace s @ [(c, a)]"
    and "d |\<in>| A \<Longrightarrow> d \<noteq> c \<Longrightarrow> max_calls (snd (invoke e c a s)) d = max_calls s d"
proof -
  note R = assms(1) [unfolded registry_only_def, rule_format, OF assms(2), of a]
  show "fst (invoke e c a s) = Return ()" using R by simp
  show "keys_distinct (snd (invoke e c a s))" using R by simp
  show "trace (snd (invoke e c a s)) = trace s @ [(c, a)]" using R by simp
  show "d |\<in>| A \<Longrightarrow> d \<noteq> c \<Longrightarrow> max_calls (snd (invoke e c a s)) d = max_calls s d"
    using R by simp
qed

lemma disconnect_keys_distinct: "keys_distinct s \<Longrightarrow> keys_distinct (snd (disconnect c s))"
  using disconnect_ok(2) [of s c] by (simp add: keys_distinct_def)

lemma keys_distinct_max_calls [simp]:
  "keys_distinct (s\<lparr>max_calls := f\<rparr>) = keys_distinct s"
  by (simp add: keys_distinct_def)

lemma priv_call_registry_only:
  assumes "registry_only e A c" and "keys_distinct s"
  shows "fst (priv_call e c a s) = Return ()"
    and "keys_distinct (snd (priv_call e c a s))"
    and "trace (snd (priv_call e c a s)) =
           (if exhausted (max_calls s c) then trace s else trace s @ [(c, a)])"
    and "d |\<in>| A \<Longrightarrow> d \<noteq> c \<Longrightarrow> max_calls (snd (priv_call e c a s)) d = max_calls s d"
proof -
  note D = disconnect_ok [OF assms(2), of c]
  have kd: "\<And>f. keys_distinct (s\<lparr>max_calls := f\<rparr>)" using assms(2) by simp
  note I = registry_only_invoke [OF assms(1) kd]
  show "fst (priv_call e c a s) = Return ()"
    using registry_only_invoke(1) [OF assms]
    by (cases "max_calls s c") (simp_all add: priv_call_def I D)
  show "keys_distinct (snd (priv_call e c a s))"
    using registry_only_invoke(2) [OF assms] disconnect_keys_distinct [OF assms(2), of c]
    by (cases "max_calls s c") (simp_all add: priv_call_def I)
  show "trace (snd (priv_call e c a s)) =
           (if exhausted (max_calls s c) then trace s else trace s @ [(c, a)])"
    using registry_only_invoke(3) [OF assms]
    by (cases "max_calls s c") (simp_all add: priv_call_def I D)
  show "d |\<in>| A \<Longrightarrow> d \<noteq> c \<Longrightarrow> max_calls (snd (priv_call e c a s)) d = max_calls s d"
    using registry_only_invoke(4) [OF assms]
    by (cases "max_calls s c") (simp_all add: priv_call_def I D)
qed

lemma emit_loop_registry_only:
  assumes "distinct xs" and "set xs \<subseteq> fset A"
      and "\<forall>c\<in>set xs. registry_only e A c" and "keys_distinct s"
  shows "fst (emit_loop e xs a s) = Return () \<and>
         trace (snd (emit_loop e xs a s)) =
           trace s @ map (\<lambda>c. (c, a)) (filter (\<lambda>c. \<not> exhausted (max_calls s c)) xs)"
  using assms
proof (induction xs arbitrary: s)
  case Nil
  then show ?case by simp
next
  case (Cons c xs)
  let ?s1 = "snd (priv_call e c a s)"
  have rc: "registry_only e A c" and kd: "keys_distinct s" using Cons.prems by simp_all
  note P = priv_call_registry_only [OF rc kd, where a = a]
  have unfold: "emit_loop e (c # xs) a s = emit_loop e xs a ?s1"
    by (simp add: split_beta P(1))
  have dxs: "distinct xs" and sub: "set xs \<subseteq> fset A"
    and rxs: "\<forall>c\<in>set xs. registry_only e A c" and notin: "c \<notin> set xs"
    using Cons.prems by simp_all
  have same: "\<And>d. d \<in> set xs \<Longrightarrow> max_calls ?s1 d = max_calls s d"
  proof -
    fix d assume d: "d \<in> set xs"
    then have "d |\<in>| A" and "d \<noteq> c" using sub notin by auto
    then show "max_calls ?s1 d = max_calls s d" by (rule P(4))
  qed
  have f: "filter (\<lambda>d. \<not> exhausted (max_calls ?s1 d)) xs
         = filter (\<lambda>d. \<not> exhausted (max_calls s d)) xs"
    by (rule filter_cong) (simp_all add: same)
  note IH = Cons.IH [OF dxs sub rxs P(2)]
  show ?case
    unfolding unfold using IH by (simp add: f P(3))
qed

lemma env2_iter_ok: "iter_ok env2"
  by (simp add: iter_ok_def env2_def distinct_sorted_list_of_fset)

lemma meddling_self:
  "keys_distinct s \<Longrightarrow>
   meddling 0 a s =
     (Return (), snd (on (Single ''s'') (FuncObj (Func 5)) None (snd (disconnect (Func 0) s))))"
  by (simp add: meddling_def split_beta disconnect_ok(1) on_func)

lemma env2_registry_only:
  "registry_only env2 {|Func 0, Func 1|} (Func 0)"
  "registry_only env2 {|Func 0, Func 1|} (Func 1)"
proof -
  show "registry_only env2 {|Func 0, Func 1|} (Func 0)"
    unfolding registry_only_def
  proof (intro allI impI)
    fix a s
    assume kd: "keys_distinct s"
    let ?s' = "s\<lparr>trace := trace s @ [(Func 0, a)]\<rparr>"
    let ?s1 = "snd (disconnect (Func 0) ?s')"
    let ?s2 = "snd (on (Single ''s'') (FuncObj (Func 5)) None ?s1)"
    have kd': "keys_distinct ?s'" using kd by (simp add: keys_distinct_def)
    have run: "invoke env2 (Func 0) a s = (Return (), ?s2)"
      using meddling_self [OF kd'] by (simp add: env2_def)
    have kd1: "keys_distinct ?s1" using kd' by (rule disconnect_keys_distinct)
    have kd2: "keys_distinct ?s2" using kd1 by (simp add: on_func_obs)
    have tr: "trace ?s2 = trace s @ [(Func 0, a)]"
      by (simp add: on_func_obs disconnect_ok [OF kd'])
    have mc: "\<forall>d. d |\<in>| {|Func 0, Func 1|} \<and> d \<noteq> Func 0 \<longrightarrow> max_calls ?s2 d = max_calls s d"
      by (simp add: on_func_obs disconnect_ok [OF kd'])
    show "fst (invoke env2 (Func 0) a s) = Return () \<and>
          keys_distinct (snd (invoke env2 (Func 0) a s)) \<and>
          trace (snd (invoke env2 (Func 0) a s)) = trace s @ [(Func 0, a)] \<and>
          (\<forall>d. d |\<in>| {|Func 0, Func 1|} \<and> d \<noteq> Func 0 \<longrightarrow>
               max_calls (snd (invoke env2 (Func 0) a s)) d = max_calls s d)"
      unfolding run fst_conv snd_conv using kd2 tr mc by blast
  qed
  show "registry_only env2 {|Func 0, Func 1|} (Func 1)"
    by (simp add: registry_only_def env2_def meddling_def keys_distinct_def)
qed

text \<open>
  C5 (as amended). \<^verbatim>\<open>emit\<close> iterates over the copy of the signal's set taken before the
  first call. Let the callbacks of that copy return, call no callback themselves and leave
  the counters of the other members of the copy alone, while they add and remove
  callbacks as they like, themselves included (\<open>registry_only\<close>). Then the emission returns
  without an exception, and the calls it makes are fixed by the state at the start: the
  members of the copy whose counter is not exhausted then, each exactly once, in iteration
  order.
\<close>

theorem emit_snapshot:
  assumes "iter_ok e" and "keys_distinct s"
      and "\<forall>c. c |\<in>| recv s k \<longrightarrow> registry_only e (recv s k) c"
  shows "fst (emit e k a s) = Return () \<and>
         trace (snd (emit e k a s)) =
           trace s @ map (\<lambda>c. (c, a))
                       (filter (\<lambda>c. \<not> exhausted (max_calls s c)) (iter e (recv s k)))"
proof -
  let ?xs = "iter e (recv s k)"
  let ?s0 = "snd (getitem k s)"
  have eq: "emit e k a s = emit_loop e ?xs a ?s0"
    by (simp add: emit_def split_beta)
  have set: "set ?xs = fset (recv s k)" using assms(1) by (rule iter_ok_set)
  have d: "distinct ?xs" using assms(1) by (rule iter_ok_distinct)
  have sub: "set ?xs \<subseteq> fset (recv s k)" by (simp add: set)
  have r: "\<forall>c\<in>set ?xs. registry_only e (recv s k) c" using assms(3) by (simp add: set)
  have kd: "keys_distinct ?s0" using assms(2) by (rule getitem_keys_distinct)
  from emit_loop_registry_only [OF d sub r kd, where a = a]
  show ?thesis by (simp add: eq)
qed

theorem emit_snapshot_witness:
  "fst (emit env2 ''s'' no_args two_on_s) = Return () \<and>
   trace (snd (emit env2 ''s'' no_args two_on_s)) = [(Func 0, no_args), (Func 1, no_args)] \<and>
   recv (snd (emit env2 ''s'' no_args two_on_s)) ''s'' = {|Func 1, Func 5|}"
proof -
  have kd: "keys_distinct two_on_s"
    by (simp add: keys_distinct_def keys_def two_on_s_def init_state_def)
  have snap: "recv two_on_s ''s'' = {|Func 0, Func 1|}"
    by (simp add: recv_def two_on_s_def init_state_def)
  have members: "\<forall>c. c |\<in>| recv two_on_s ''s'' \<longrightarrow> registry_only env2 (recv two_on_s ''s'') c"
    using env2_registry_only by (auto simp: snap)
  have calls: "trace two_on_s @ map (\<lambda>c. (c, no_args))
                 (filter (\<lambda>c. \<not> exhausted (max_calls two_on_s c)) (iter env2 (recv two_on_s ''s'')))
               = [(Func 0, no_args), (Func 1, no_args)]"
    by code_simp
  have after: "recv (snd (emit env2 ''s'' no_args two_on_s)) ''s'' = {|Func 1, Func 5|}"
    by code_simp
  from emit_snapshot [OF env2_iter_ok kd members, of no_args] calls after
  show ?thesis by simp
qed

text \<open>
  With two unlimited callbacks registered, an emission calls both. When the first one
  registers the second again with \<^verbatim>\<open>max_calls=0\<close> while it runs, the same emission does not
  call the second.
\<close>

theorem registration_changes_pass_counterexample:
  "fst (emit env0 ''s'' no_args two_on_s) = Return () \<and>
   trace (snd (emit env0 ''s'' no_args two_on_s)) = [(Func 0, no_args), (Func 1, no_args)] \<and>
   fst (emit env3 ''s'' no_args two_on_s) = Return () \<and>
   trace (snd (emit env3 ''s'' no_args two_on_s)) = [(Func 0, no_args)]"
  by code_simp

end
